theory Spec2Isabelle
  imports Complex_Main
begin

section \<open>JavaScript data\<close>

text \<open>
  The renderer works on plain JavaScript data read from the store.  Strings are lists of
  code units (the model covers code units below 256).  Numbers are the mathematical
  values of the IEEE doubles together with the three non-finite values; rounding and the
  sign of zero are not represented.  An object is the list of its own enumerable
  properties in the order in which \<^verbatim>\<open>Object.keys\<close> lists them.
\<close>

datatype jsnum = NaN | PosInf | NegInf | Fin rat

datatype jsval =
    JUndef
  | JNull
  | JBool bool
  | JNum jsnum
  | JStr string
  | JArr "jsval list"
  | JObj "(string \<times> jsval) list"

subsection \<open>Strings\<close>

text \<open>White space as \<^verbatim>\<open>String.prototype.trim\<close> and \<^verbatim>\<open>Number\<close> strip it.\<close>

definition is_ws :: "char \<Rightarrow> bool" where
  "is_ws c \<longleftrightarrow> c \<in> set [CHR 0x09, CHR 0x0A, CHR 0x0B, CHR 0x0C, CHR 0x0D, CHR 0x20, CHR 0xA0]"

definition trim :: "string \<Rightarrow> string" where
  "trim s = rev (dropWhile is_ws (rev (dropWhile is_ws s)))"

fun indexOf :: "char \<Rightarrow> string \<Rightarrow> nat option" where
  "indexOf c [] = None"
| "indexOf c (x # xs) = (if x = c then Some 0 else map_option Suc (indexOf c xs))"

definition lastIndexOf :: "char \<Rightarrow> string \<Rightarrow> nat option" where
  "lastIndexOf c s = map_option (\<lambda>j. length s - 1 - j) (indexOf c (rev s))"

definition is_digit :: "char \<Rightarrow> bool" where
  "is_digit c \<longleftrightarrow> c \<in> set ''0123456789''"

definition is_hex :: "char \<Rightarrow> bool" where
  "is_hex c \<longleftrightarrow> c \<in> set ''0123456789abcdefABCDEF''"

definition digit_val :: "char \<Rightarrow> nat" where
  "digit_val c =
     (if is_digit c then of_char c - 48
      else if c \<in> set ''abcdef'' then of_char c - 87
      else of_char c - 55)"

definition radix_val :: "nat \<Rightarrow> string \<Rightarrow> nat" where
  "radix_val b ds = foldl (\<lambda>a c. b * a + digit_val c) 0 ds"

definition digit_char :: "nat \<Rightarrow> char" where
  "digit_char d = ''0123456789'' ! d"

text \<open>The decimal form of a non-negative integer, as a template literal prints it.\<close>

fun show_nat :: "nat \<Rightarrow> string" where
  "show_nat n =
     (if n < 10 then [digit_char n] else show_nat (n div 10) @ [digit_char (n mod 10)])"

declare show_nat.simps [simp del]

definition show_int :: "int \<Rightarrow> string" where
  "show_int i = (if i < 0 then CHR ''-'' # show_nat (nat (- i)) else show_nat (nat i))"

subsection \<open>Conversion of strings to numbers\<close>

definition pow10 :: "int \<Rightarrow> rat" where
  "pow10 e = (if 0 \<le> e then 10 ^ nat e else 1 / 10 ^ nat (- e))"

text \<open>An optional exponent part: nothing, or e/E, an optional sign and digits.\<close>

definition parse_exponent :: "string \<Rightarrow> int option" where
  "parse_exponent s =
     (case s of
        [] \<Rightarrow> Some 0
      | c # r \<Rightarrow>
          if c = CHR ''e'' \<or> c = CHR ''E'' then
            (let neg = (r \<noteq> [] \<and> hd r = CHR ''-'');
                 ds = (if r \<noteq> [] \<and> (hd r = CHR ''-'' \<or> hd r = CHR ''+'') then tl r else r)
             in if ds \<noteq> [] \<and> list_all is_digit ds
                then Some (if neg then - int (radix_val 10 ds) else int (radix_val 10 ds))
                else None)
          else None)"

definition decimal_value :: "string \<Rightarrow> string \<Rightarrow> int \<Rightarrow> rat" where
  "decimal_value ip fp e =
     (of_nat (radix_val 10 ip) + of_nat (radix_val 10 fp) / 10 ^ length fp) * pow10 e"

text \<open>StrUnsignedDecimalLiteral without the Infinity alternative.\<close>

definition parse_unsigned_decimal :: "string \<Rightarrow> rat option" where
  "parse_unsigned_decimal s =
     (let ip = takeWhile is_digit s;
          r1 = dropWhile is_digit s;
          has_dot = (r1 \<noteq> [] \<and> hd r1 = CHR ''.'');
          fp = (if has_dot then takeWhile is_digit (tl r1) else []);
          r2 = (if has_dot then dropWhile is_digit (tl r1) else r1)
      in if ip = [] \<and> fp = [] then None
         else map_option (decimal_value ip fp) (parse_exponent r2))"

definition str_decimal :: "string \<Rightarrow> jsnum" where
  "str_decimal s =
     (let neg = (s \<noteq> [] \<and> hd s = CHR ''-'');
          body = (if s \<noteq> [] \<and> (hd s = CHR ''-'' \<or> hd s = CHR ''+'') then tl s else s)
      in if body = ''Infinity'' then (if neg then NegInf else PosInf)
         else (case parse_unsigned_decimal body of
                 None \<Rightarrow> NaN
               | Some r \<Rightarrow> Fin (if neg then - r else r)))"

definition radix_literal :: "nat \<Rightarrow> string \<Rightarrow> string \<Rightarrow> jsnum" where
  "radix_literal b allowed ds =
     (if ds \<noteq> [] \<and> list_all (\<lambda>c. c \<in> set allowed) ds then Fin (of_nat (radix_val b ds)) else NaN)"

text \<open>\<^verbatim>\<open>Number(s)\<close> for a string \<open>s\<close>.\<close>

definition str_to_number :: "string \<Rightarrow> jsnum" where
  "str_to_number s =
     (let t = trim s in
      if t = [] then Fin 0
      else if take 2 t = ''0x'' \<or> take 2 t = ''0X'' then radix_literal 16 ''0123456789abcdefABCDEF'' (drop 2 t)
      else if take 2 t = ''0o'' \<or> take 2 t = ''0O'' then radix_literal 8 ''01234567'' (drop 2 t)
      else if take 2 t = ''0b'' \<or> take 2 t = ''0B'' then radix_literal 2 ''01'' (drop 2 t)
      else str_decimal t)"

text \<open>
  \<^verbatim>\<open>Number(v)\<close> for plain data.  An array is first joined with commas: the empty array
  gives the empty string, a one-element array the string of its element (empty for
  null and undefined), and a longer array a string with a comma, which is no numeral.
\<close>

fun to_number :: "jsval \<Rightarrow> jsnum" where
  "to_number JUndef = NaN"
| "to_number JNull = Fin 0"
| "to_number (JBool b) = Fin (if b then 1 else 0)"
| "to_number (JNum n) = n"
| "to_number (JStr s) = str_to_number s"
| "to_number (JObj kvs) = NaN"
| "to_number (JArr []) = Fin 0"
| "to_number (JArr [JUndef]) = Fin 0"
| "to_number (JArr [JNull]) = Fin 0"
| "to_number (JArr [JBool b]) = NaN"
| "to_number (JArr [JNum n]) = n"
| "to_number (JArr [JStr s]) = str_to_number s"
| "to_number (JArr [JObj kvs]) = NaN"
| "to_number (JArr [JArr ys]) = to_number (JArr ys)"
| "to_number (JArr (x # y # zs)) = NaN"

fun to_boolean :: "jsval \<Rightarrow> bool" where
  "to_boolean JUndef = False"
| "to_boolean JNull = False"
| "to_boolean (JBool b) = b"
| "to_boolean (JNum n) = (n \<noteq> NaN \<and> n \<noteq> Fin 0)"
| "to_boolean (JStr s) = (s \<noteq> [])"
| "to_boolean (JArr xs) = True"
| "to_boolean (JObj kvs) = True"

text \<open>\<^verbatim>\<open>n || 0\<close> and \<^verbatim>\<open>n + d\<close> on numbers.\<close>

definition num_or_zero :: "jsnum \<Rightarrow> jsnum" where
  "num_or_zero n = (if n = NaN \<or> n = Fin 0 then Fin 0 else n)"

fun num_add :: "jsnum \<Rightarrow> rat \<Rightarrow> jsnum" where
  "num_add (Fin r) d = Fin (r + d)"
| "num_add n d = n"

subsection \<open>Objects\<close>

text \<open>
  A canonical array index is the decimal form of an integer below \<open>2^32 - 1\<close>; such
  keys are enumerated first, in ascending order, the other keys in creation order.
\<close>

definition is_array_index :: "string \<Rightarrow> bool" where
  "is_array_index k \<longleftrightarrow>
     k \<noteq> [] \<and> list_all is_digit k \<and> (k = ''0'' \<or> hd k \<noteq> CHR ''0'') \<and> radix_val 10 k < 4294967295"

fun insert_index :: "string \<Rightarrow> jsval \<Rightarrow> (string \<times> jsval) list \<Rightarrow> (string \<times> jsval) list" where
  "insert_index k v [] = [(k, v)]"
| "insert_index k v ((k', v') # r) =
     (if is_array_index k' \<and> radix_val 10 k' < radix_val 10 k
      then (k', v') # insert_index k v r
      else (k, v) # (k', v') # r)"

text \<open>The assignment \<^verbatim>\<open>o[k] = v\<close> on an object.\<close>

definition obj_set :: "string \<Rightarrow> jsval \<Rightarrow> (string \<times> jsval) list \<Rightarrow> (string \<times> jsval) list" where
  "obj_set k v kvs =
     (if k \<in> set (map fst kvs) then map (\<lambda>kv. if fst kv = k then (k, v) else kv) kvs
      else if is_array_index k then insert_index k v kvs
      else kvs @ [(k, v)])"

text \<open>
  \<^verbatim>\<open>Object.keys(v)\<close> and \<^verbatim>\<open>v[k]\<close> for an own key \<open>k\<close>.  The renderer calls neither on
  null or undefined, and reads only keys that \<^verbatim>\<open>Object.keys\<close> returned.
\<close>

fun own_keys :: "jsval \<Rightarrow> string list" where
  "own_keys (JObj kvs) = map fst kvs"
| "own_keys (JArr xs) = map show_nat [0..<length xs]"
| "own_keys (JStr s) = map show_nat [0..<length s]"
| "own_keys v = []"

fun get_prop :: "jsval \<Rightarrow> string \<Rightarrow> jsval" where
  "get_prop (JObj kvs) k = (case map_of kvs k of Some v \<Rightarrow> v | None \<Rightarrow> JUndef)"
| "get_prop (JArr xs) k =
     (if is_array_index k \<and> radix_val 10 k < length xs then xs ! radix_val 10 k else JUndef)"
| "get_prop (JStr s) k =
     (if is_array_index k \<and> radix_val 10 k < length s then JStr [s ! radix_val 10 k] else JUndef)"
| "get_prop v k = JUndef"

subsection \<open>JSON\<close>

datatype jtok =
  TLBrace | TRBrace | TLBrack | TRBrack | TColon | TComma
  | TStr string | TNum jsnum | TTrue | TFalse | TNull

datatype lexst =
    LIdle
  | LWord string
  | LStr string
  | LEsc string
  | LUni string string

definition json_ws :: "char \<Rightarrow> bool" where
  "json_ws c \<longleftrightarrow> c \<in> set [CHR 0x09, CHR 0x0A, CHR 0x0D, CHR 0x20]"

definition punct_tok :: "char \<Rightarrow> jtok option" where
  "punct_tok c =
     (if c = CHR ''{'' then Some TLBrace else if c = CHR ''}'' then Some TRBrace
      else if c = CHR ''['' then Some TLBrack else if c = CHR '']'' then Some TRBrack
      else if c = CHR '':'' then Some TColon else if c = CHR '','' then Some TComma
      else None)"

text \<open>A JSON number: an optional minus, an integer part without a leading zero,
  an optional fraction with at least one digit, an optional exponent.\<close>

definition json_number :: "string \<Rightarrow> jsnum option" where
  "json_number w =
     (let neg = (w \<noteq> [] \<and> hd w = CHR ''-'');
          r = (if neg then tl w else w);
          ip = takeWhile is_digit r;
          r1 = dropWhile is_digit r;
          has_dot = (r1 \<noteq> [] \<and> hd r1 = CHR ''.'');
          fp = (if has_dot then takeWhile is_digit (tl r1) else []);
          r2 = (if has_dot then dropWhile is_digit (tl r1) else r1)
      in if ip = [] \<or> (1 < length ip \<and> hd ip = CHR ''0'') \<or> (has_dot \<and> fp = []) then None
         else map_option (\<lambda>e. Fin (if neg then - decimal_value ip fp e else decimal_value ip fp e))
                (parse_exponent r2))"

definition word_tok :: "string \<Rightarrow> jtok option" where
  "word_tok w =
     (if w = ''true'' then Some TTrue
      else if w = ''false'' then Some TFalse
      else if w = ''null'' then Some TNull
      else map_option TNum (json_number w))"

definition escape_char :: "char \<Rightarrow> char option" where
  "escape_char c =
     (if c = CHR 0x22 then Some (CHR 0x22)
      else if c = CHR 0x5C then Some (CHR 0x5C)
      else if c = CHR ''/'' then Some (CHR ''/'')
      else if c = CHR ''b'' then Some (CHR 0x08)
      else if c = CHR ''f'' then Some (CHR 0x0C)
      else if c = CHR ''n'' then Some (CHR 0x0A)
      else if c = CHR ''r'' then Some (CHR 0x0D)
      else if c = CHR ''t'' then Some (CHR 0x09)
      else None)"

text \<open>One character outside a string and outside a word.\<close>

definition lex_idle :: "jtok list \<Rightarrow> char \<Rightarrow> (lexst \<times> jtok list) option" where
  "lex_idle ts c =
     (if json_ws c then Some (LIdle, ts)
      else if c = CHR 0x22 then Some (LStr [], ts)
      else (case punct_tok c of
              Some t \<Rightarrow> Some (LIdle, ts @ [t])
            | None \<Rightarrow> Some (LWord [c], ts)))"

text \<open>
  The lexer reads one character at a time.  A run of characters that is neither white
  space, punctuation nor a quote is one word and must be a keyword or a number.  An
  escape \<^verbatim>\<open>\uXXXX\<close> is decoded when its code unit is below 256.
\<close>

fun lex_step :: "lexst \<times> jtok list \<Rightarrow> char \<Rightarrow> (lexst \<times> jtok list) option" where
  "lex_step (LIdle, ts) c = lex_idle ts c"
| "lex_step (LWord w, ts) c =
     (if json_ws c \<or> c = CHR 0x22 \<or> punct_tok c \<noteq> None
      then (case word_tok w of None \<Rightarrow> None | Some t \<Rightarrow> lex_idle (ts @ [t]) c)
      else Some (LWord (w @ [c]), ts))"
| "lex_step (LStr acc, ts) c =
     (if c = CHR 0x22 then Some (LIdle, ts @ [TStr acc])
      else if c = CHR 0x5C then Some (LEsc acc, ts)
      else if (of_char c :: nat) < 32 then None
      else Some (LStr (acc @ [c]), ts))"
| "lex_step (LEsc acc, ts) c =
     (if c = CHR ''u'' then Some (LUni acc [], ts)
      else (case escape_char c of None \<Rightarrow> None | Some x \<Rightarrow> Some (LStr (acc @ [x]), ts)))"
| "lex_step (LUni acc hs, ts) c =
     (if \<not> is_hex c then None
      else if length hs < 3 then Some (LUni acc (hs @ [c]), ts)
      else if radix_val 16 (hs @ [c]) < 256 then Some (LStr (acc @ [char_of (radix_val 16 (hs @ [c]))]), ts)
      else None)"

definition lex_end :: "lexst \<times> jtok list \<Rightarrow> jtok list option" where
  "lex_end st =
     (case fst st of
        LIdle \<Rightarrow> Some (snd st)
      | LWord w \<Rightarrow> map_option (\<lambda>t. snd st @ [t]) (word_tok w)
      | _ \<Rightarrow> None)"

definition json_lex :: "string \<Rightarrow> jtok list option" where
  "json_lex s =
     Option.bind (foldl (\<lambda>st c. Option.bind st (\<lambda>x. lex_step x c)) (Some (LIdle, [])) s) lex_end"

datatype frame = FArr "jsval list" | FObj "(string \<times> jsval) list" "string option"

datatype pmode = PValue | PValueOrEnd | PKeyOrEnd | PKey | PColon | PCommaOrEnd | PDone jsval

fun push_value :: "jsval \<Rightarrow> frame list \<Rightarrow> (pmode \<times> frame list) option" where
  "push_value v [] = Some (PDone v, [])"
| "push_value v (FArr xs # st) = Some (PCommaOrEnd, FArr (xs @ [v]) # st)"
| "push_value v (FObj kvs (Some k) # st) = Some (PCommaOrEnd, FObj (obj_set k v kvs) None # st)"
| "push_value v (FObj kvs None # st) = None"

fun close_array :: "frame list \<Rightarrow> (pmode \<times> frame list) option" where
  "close_array (FArr xs # st) = push_value (JArr xs) st"
| "close_array st = None"

fun close_object :: "frame list \<Rightarrow> (pmode \<times> frame list) option" where
  "close_object (FObj kvs None # st) = push_value (JObj kvs) st"
| "close_object st = None"

fun set_key :: "string \<Rightarrow> frame list \<Rightarrow> (pmode \<times> frame list) option" where
  "set_key k (FObj kvs None # st) = Some (PColon, FObj kvs (Some k) # st)"
| "set_key k st = None"

fun value_start :: "jtok \<Rightarrow> frame list \<Rightarrow> (pmode \<times> frame list) option" where
  "value_start TLBrack st = Some (PValueOrEnd, FArr [] # st)"
| "value_start TLBrace st = Some (PKeyOrEnd, FObj [] None # st)"
| "value_start (TStr s) st = push_value (JStr s) st"
| "value_start (TNum n) st = push_value (JNum n) st"
| "value_start TTrue st = push_value (JBool True) st"
| "value_start TFalse st = push_value (JBool False) st"
| "value_start TNull st = push_value JNull st"
| "value_start t st = None"

fun after_value :: "jtok \<Rightarrow> frame list \<Rightarrow> (pmode \<times> frame list) option" where
  "after_value TComma (FArr xs # st) = Some (PValue, FArr xs # st)"
| "after_value TComma (FObj kvs None # st) = Some (PKey, FObj kvs None # st)"
| "after_value TRBrack st = close_array st"
| "after_value TRBrace st = close_object st"
| "after_value t st = None"

fun parse_step :: "pmode \<times> frame list \<Rightarrow> jtok \<Rightarrow> (pmode \<times> frame list) option" where
  "parse_step (PValue, st) t = value_start t st"
| "parse_step (PValueOrEnd, st) t = (if t = TRBrack then close_array st else value_start t st)"
| "parse_step (PKeyOrEnd, st) t =
     (case t of TStr k \<Rightarrow> set_key k st | TRBrace \<Rightarrow> close_object st | _ \<Rightarrow> None)"
| "parse_step (PKey, st) t = (case t of TStr k \<Rightarrow> set_key k st | _ \<Rightarrow> None)"
| "parse_step (PColon, st) t = (if t = TColon then Some (PValue, st) else None)"
| "parse_step (PCommaOrEnd, st) t = after_value t st"
| "parse_step (PDone v, st) t = None"

text \<open>\<^verbatim>\<open>JSON.parse(s)\<close>: \<open>None\<close> is the SyntaxError.\<close>

definition json_parse :: "string \<Rightarrow> jsval option" where
  "json_parse s =
     (case json_lex s of
        None \<Rightarrow> None
      | Some ts \<Rightarrow>
          (case foldl (\<lambda>st t. Option.bind st (\<lambda>x. parse_step x t)) (Some (PValue, [])) ts of
             Some (PDone v, []) \<Rightarrow> Some v
           | _ \<Rightarrow> None))"

text \<open>
  \<^verbatim>\<open>JSON.parse(JSON.stringify(v))\<close> for a composite \<open>v\<close>: serialisation leaves out the
  properties whose value is undefined, writes null for an undefined array element and
  for a non-finite number, and parsing creates the properties again one by one.
\<close>

fun json_clone :: "jsval \<Rightarrow> jsval" where
  "json_clone (JNum n) = (case n of Fin r \<Rightarrow> JNum (Fin r) | _ \<Rightarrow> JNull)"
| "json_clone (JArr xs) = JArr (map (\<lambda>x. if x = JUndef then JNull else json_clone x) xs)"
| "json_clone (JObj kvs) =
     JObj (foldl (\<lambda>acc kv. obj_set (fst kv) (snd kv) acc) []
             (map (\<lambda>kv. (fst kv, json_clone (snd kv))) (filter (\<lambda>kv. snd kv \<noteq> JUndef) kvs)))"
| "json_clone v = v"

section \<open>Pure helpers\<close>

record set_expr =
  path :: string
  expr :: "string option"

definition parseSetExpr :: "string \<Rightarrow> set_expr" where
  "parseSetExpr raw =
     (case indexOf CHR '':'' raw of
        None \<Rightarrow> \<lparr> path = trim raw, expr = None \<rparr>
      | Some i \<Rightarrow> \<lparr> path = trim (take i raw), expr = Some (trim (drop (i + 1) raw)) \<rparr>)"

definition evalExpr :: "string option \<Rightarrow> jsval \<Rightarrow> jsval" where
  "evalExpr e current =
     (case e of
        None \<Rightarrow> current
      | Some s \<Rightarrow>
          if s = ''increment'' then JNum (num_add (num_or_zero (to_number current)) 1)
          else if s = ''decrement'' then JNum (num_add (num_or_zero (to_number current)) (- 1))
          else if s = ''toggle'' then JBool (\<not> to_boolean current)
          else if s = ''true'' then JBool True
          else if s = ''false'' then JBool False
          else if s = ''null'' then JNull
          else if str_to_number s \<noteq> NaN \<and> trim s \<noteq> [] then JNum (str_to_number s)
          else (case json_parse s of Some v \<Rightarrow> v | None \<Rightarrow> JStr s))"

text \<open>The regular expression \<^verbatim>\<open>/^push\(([^)]+)\)$/\<close>: the captured group, if it matches.\<close>

definition match_push :: "string \<Rightarrow> string option" where
  "match_push s =
     (let body = drop 5 s in
      if take 5 s = ''push('' \<and> body \<noteq> [] \<and> last body = CHR '')''
         \<and> butlast body \<noteq> [] \<and> CHR '')'' \<notin> set (butlast body)
      then Some (butlast body) else None)"

text \<open>The result \<open>None\<close> is null, \<open>Some None\<close> is the object whose source is null.\<close>

definition parsePush :: "string option \<Rightarrow> string option option" where
  "parsePush e =
     (case e of
        None \<Rightarrow> None
      | Some s \<Rightarrow>
          if s = [] then None
          else if s = ''push'' then Some None
          else map_option (\<lambda>m. Some (trim m)) (match_push s))"

section \<open>Delegated action execution\<close>

text \<open>
  The store is an external collaborator.  An action reads it through \<^verbatim>\<open>store.get\<close>,
  here the function \<open>get\<close>, and its effect is the sequence of calls it makes on the
  store.  The clock reading \<^verbatim>\<open>Date.now()\<close> is the parameter \<open>now\<close>.
\<close>

datatype store_call = SetCall string jsval | BatchCall "(string \<times> jsval) list"

definition or_empty :: "jsval \<Rightarrow> jsval" where
  "or_empty v = (if to_boolean v then v else JObj [])"

fun type_is_object :: "jsval \<Rightarrow> bool" where
  "type_is_object JNull = True"
| "type_is_object (JArr xs) = True"
| "type_is_object (JObj kvs) = True"
| "type_is_object v = False"

text \<open>A composite value: an object or an array.\<close>

fun composite :: "jsval \<Rightarrow> bool" where
  "composite (JArr xs) = True"
| "composite (JObj kvs) = True"
| "composite v = False"


fun zero_of :: "jsval \<Rightarrow> jsval" where
  "zero_of (JStr s) = JStr []"
| "zero_of (JBool b) = JBool False"
| "zero_of (JNum n) = JNum (Fin 0)"
| "zero_of v = JNull"

definition push_key :: "int \<Rightarrow> string" where
  "push_key now = ''t_'' @ show_int now"

definition delete_rebuild :: "jsval \<Rightarrow> string \<Rightarrow> (string \<times> jsval) list" where
  "delete_rebuild parent key =
     foldl (\<lambda>updated k. if k \<noteq> key then obj_set k (get_prop parent k) updated else updated)
       [] (own_keys parent)"

text \<open>The writes a push makes inside its batch, as pairs of path and value.\<close>

definition push_calls :: "string \<Rightarrow> string \<Rightarrow> jsval \<Rightarrow> string \<Rightarrow> (string \<times> jsval) list" where
  "push_calls p sourcePath src key =
     (p @ ''.'' @ key, json_clone src)
     # map (\<lambda>k. (sourcePath @ ''.'' @ k, zero_of (get_prop src k))) (own_keys src)"

definition executeSet :: "(string \<Rightarrow> jsval) \<Rightarrow> int \<Rightarrow> string \<Rightarrow> store_call list" where
  "executeSet get now raw =
     (let a = parseSetExpr raw in
      if expr a = Some ''delete'' then
        (case lastIndexOf CHR ''.'' (path a) of
           None \<Rightarrow> []
         | Some dot \<Rightarrow>
             (let parentPath = take dot (path a);
                  key = drop (dot + 1) (path a);
                  parent = or_empty (get parentPath)
              in [SetCall parentPath (JObj (delete_rebuild parent key))]))
      else
        (case parsePush (expr a) of
           Some push \<Rightarrow>
             (case push of
                None \<Rightarrow> []
              | Some sourcePath \<Rightarrow>
                  if sourcePath = [] then []
                  else (let src = get sourcePath in
                        if \<not> to_boolean src \<or> \<not> type_is_object src then []
                        else [BatchCall (push_calls (path a) sourcePath src (push_key now))]))
         | None \<Rightarrow> [SetCall (path a) (evalExpr (expr a) (get (path a)))]))"

section \<open>The mounted renderer\<close>

text \<open>
  Elements are trees whose nodes carry an identity.  The attributes recorded in a tree
  are those the nodes have when a scan first visits them; a scan reads them before any
  binding of the node writes to the node, and a node is scanned once.  The markup parser
  of the platform is a parameter: it maps a string to the element children of a
  container whose \<^verbatim>\<open>innerHTML\<close> is set to that string, as trees without identity.
\<close>

type_synonym node = nat

type_synonym handle = nat

datatype elem = Elem node "(string \<times> string) list" "elem list"

datatype shape = Shape "(string \<times> string) list" "shape list"

fun elem_id :: "elem \<Rightarrow> node" where
  "elem_id (Elem n as kids) = n"

text \<open>An element and its descendants in document order:
  \<^verbatim>\<open>[el, ...el.querySelectorAll('*')]\<close>.\<close>

fun nodes_of :: "elem \<Rightarrow> (node \<times> (string \<times> string) list) list" where
  "nodes_of (Elem n as kids) = (n, as) # concat (map nodes_of kids)"

definition ids :: "elem \<Rightarrow> node list" where
  "ids el = map fst (nodes_of el)"

text \<open>\<^verbatim>\<open>container.contains(node)\<close>: the node is the container or a descendant of it.\<close>

definition contains :: "elem \<Rightarrow> node \<Rightarrow> bool" where
  "contains el n \<longleftrightarrow> n \<in> set (ids el)"

text \<open>Creating the nodes of a parsed tree: identities are allocated in document order.\<close>

fun label :: "node \<Rightarrow> shape \<Rightarrow> elem \<times> node"
  and label_list :: "node \<Rightarrow> shape list \<Rightarrow> elem list \<times> node" where
  "label n (Shape as kids) = (let r = label_list (Suc n) kids in (Elem n as (fst r), snd r))"
| "label_list n [] = ([], n)"
| "label_list n (s # ss) =
     (let r = label n s; q = label_list (snd r) ss in (fst r # fst q, snd q))"

text \<open>What a subscription or a binding does when the store notifies it.\<close>

datatype bkind = BText | BValue | BFocus | BData string | BAttr string

datatype listener = OnBinding node bkind | OnReconcile node

text \<open>
  The state of one mount: the registry \<open>subs\<close> of pairs of a node and the
  handle that revokes its subscription, the set of nodes that carry the marker, the
  subscriptions live in the store, the calls of update functions made so far (node,
  kind of binding, value passed), the input listeners attached for two-way bindings, the
  handles whose revocation was invoked, and the next free node identity.
\<close>

record mount_state =
  subs :: "(node \<times> handle) list"
  bound :: "node set"
  listeners :: "(handle \<times> string \<times> listener) list"
  next_handle :: handle
  applied :: "(node \<times> bkind \<times> jsval) list"
  inputs :: "(node \<times> string) list"
  revoked :: "handle list"
  next_node :: node

definition addBinding ::
  "(string \<Rightarrow> jsval) \<Rightarrow> string \<Rightarrow> node \<Rightarrow> bkind \<Rightarrow> mount_state \<Rightarrow> mount_state" where
  "addBinding get p n kind st =
     st \<lparr> applied := applied st @ [(n, kind, get p)],
          listeners := listeners st @ [(next_handle st, p, OnBinding n kind)],
          subs := subs st @ [(n, next_handle st)],
          next_handle := Suc (next_handle st) \<rparr>"

text \<open>Invoking a revocation handle.\<close>

definition unsub :: "handle \<Rightarrow> mount_state \<Rightarrow> mount_state" where
  "unsub h st =
     st \<lparr> listeners := filter (\<lambda>l. fst l \<noteq> h) (listeners st), revoked := revoked st @ [h] \<rparr>"

text \<open>
  The loop of \<^verbatim>\<open>cleanupWithin\<close>, with \<open>Suc i\<close> for the loop variable \<open>i\<close> running
  down to zero.  Reading the registry outside its bounds would raise a TypeError: \<open>None\<close>.
\<close>

fun cleanup_loop :: "elem \<Rightarrow> nat \<Rightarrow> mount_state \<Rightarrow> mount_state option" where
  "cleanup_loop c 0 st = Some st"
| "cleanup_loop c (Suc i) st =
     (if i < length (subs st) then
        (if contains c (fst (subs st ! i))
         then cleanup_loop c i
                ((unsub (snd (subs st ! i)) st) \<lparr> subs := take i (subs st) @ drop (Suc i) (subs st) \<rparr>)
         else cleanup_loop c i st)
      else None)"

definition cleanupWithin :: "elem \<Rightarrow> mount_state \<Rightarrow> mount_state option" where
  "cleanupWithin c st = cleanup_loop c (length (subs st)) st"

definition starts_with :: "string \<Rightarrow> string \<Rightarrow> bool" where
  "starts_with p s \<longleftrightarrow> take (length p) s = p"

definition bind_attr ::
  "(string \<Rightarrow> jsval) \<Rightarrow> node \<Rightarrow> mount_state \<Rightarrow> string \<times> string \<Rightarrow> mount_state" where
  "bind_attr get n st a =
     (if starts_with ''bind-data-'' (fst a) then addBinding get (snd a) n (BData (drop 10 (fst a))) st
      else if starts_with ''bind-attr-'' (fst a) then addBinding get (snd a) n (BAttr (drop 10 (fst a))) st
      else st)"

definition bind_text :: "(string \<Rightarrow> jsval) \<Rightarrow> node \<Rightarrow> (string \<times> string) list \<Rightarrow> mount_state \<Rightarrow> mount_state" where
  "bind_text get n as st =
     (case map_of as ''bind-text'' of None \<Rightarrow> st | Some p \<Rightarrow> addBinding get p n BText st)"

definition bind_value :: "(string \<Rightarrow> jsval) \<Rightarrow> node \<Rightarrow> (string \<times> string) list \<Rightarrow> mount_state \<Rightarrow> mount_state" where
  "bind_value get n as st =
     (case map_of as ''bind-value'' of
        None \<Rightarrow> st
      | Some p \<Rightarrow> (addBinding get p n BValue st) \<lparr> inputs := inputs st @ [(n, p)] \<rparr>)"

definition bind_focus :: "(string \<Rightarrow> jsval) \<Rightarrow> node \<Rightarrow> (string \<times> string) list \<Rightarrow> mount_state \<Rightarrow> mount_state" where
  "bind_focus get n as st =
     (case map_of as ''bind-focus'' of None \<Rightarrow> st | Some p \<Rightarrow> addBinding get p n BFocus st)"

text \<open>The body of the loop of \<^verbatim>\<open>scanBindings\<close> for one node.\<close>

definition scan_node ::
  "(string \<Rightarrow> jsval) \<Rightarrow> mount_state \<Rightarrow> node \<times> (string \<times> string) list \<Rightarrow> mount_state" where
  "scan_node get st na =
     (if fst na \<in> bound st then st
      else foldl (bind_attr get (fst na))
             (bind_focus get (fst na) (snd na)
               (bind_value get (fst na) (snd na)
                 (bind_text get (fst na) (snd na) (st \<lparr> bound := insert (fst na) (bound st) \<rparr>))))
             (snd na))"

datatype scan_target = AnElement elem | NotAnElement

fun scanBindings :: "(string \<Rightarrow> jsval) \<Rightarrow> mount_state \<Rightarrow> scan_target \<Rightarrow> mount_state" where
  "scanBindings get st (AnElement el) = foldl (scan_node get) st (nodes_of el)"
| "scanBindings get st NotAnElement = st"

text \<open>
  The tree below an element after a scan that started with the markers \<open>bnd\<close>: the update
  function of a text binding assigns \<^verbatim>\<open>textContent\<close>, which removes the children of the
  node (the scan still visits them: its list of nodes was taken before).
\<close>

fun detach :: "node set \<Rightarrow> elem \<Rightarrow> elem" where
  "detach bnd (Elem n as kids) =
     Elem n as (if n \<notin> bnd \<and> map_of as ''bind-text'' \<noteq> None then [] else map (detach bnd) kids)"

subsection \<open>Keyed collections\<close>

text \<open>
  The replacement text of \<^verbatim>\<open>String.prototype.replace\<close> for a pattern without groups:
  \<^verbatim>\<open>$$\<close> is a dollar sign, \<^verbatim>\<open>$&\<close> the match, and a dollar sign followed by a backquote or
  a quote the text before or after the match.
\<close>

fun expand :: "string \<Rightarrow> string \<Rightarrow> string \<Rightarrow> string \<Rightarrow> string" where
  "expand [] m b a = []"
| "expand [c] m b a = [c]"
| "expand (c # d # r) m b a =
     (if c = CHR ''$'' \<and> d = CHR ''$'' then CHR ''$'' # expand r m b a
      else if c = CHR ''$'' \<and> d = CHR ''&'' then m @ expand r m b a
      else if c = CHR ''$'' \<and> d = CHR 0x60 then b @ expand r m b a
      else if c = CHR ''$'' \<and> d = CHR 0x27 then a @ expand r m b a
      else c # expand (d # r) m b a)"

text \<open>
  Replacing every occurrence of a literal pattern, left to right; \<open>skip\<close> counts the
  characters of the current match still to pass, \<open>before\<close> is the text already passed.
\<close>

fun replace_scan :: "string \<Rightarrow> string \<Rightarrow> nat \<Rightarrow> string \<Rightarrow> string \<Rightarrow> string" where
  "replace_scan pat repl skip before [] = []"
| "replace_scan pat repl skip before (c # cs) =
     (if 0 < skip then replace_scan pat repl (skip - 1) (before @ [c]) cs
      else if pat \<noteq> [] \<and> take (length pat) (c # cs) = pat
      then expand repl pat before (drop (length pat) (c # cs))
           @ replace_scan pat repl (length pat - 1) (before @ [c]) cs
      else c # replace_scan pat repl 0 (before @ [c]) cs)"

definition replace_all :: "string \<Rightarrow> string \<Rightarrow> string \<Rightarrow> string" where
  "replace_all pat repl s = replace_scan pat repl 0 [] s"

definition resolve :: "string \<Rightarrow> string \<Rightarrow> string \<Rightarrow> string" where
  "resolve cpath html key =
     replace_all ''{_path}'' (cpath @ ''.'' @ key) (replace_all ''{_key}'' key html)"

fun join_keys :: "string list \<Rightarrow> string" where
  "join_keys [] = []"
| "join_keys [k] = k"
| "join_keys (k # k' # ks) = k @ '','' @ join_keys (k' # ks)"

text \<open>
  The state of one collection container: its path and template, the mapping from keys to
  created elements in insertion order, the cached signature, and the identities of the
  element children of the container in the tree.
\<close>

record collection =
  collPath :: string
  templateHTML :: string
  rendered :: "(string \<times> elem) list"
  lastKeyStr :: string
  child_ids :: "node list"

definition present_keys :: "jsval \<Rightarrow> string list" where
  "present_keys coll = filter (\<lambda>k. get_prop coll k \<noteq> JNull \<and> get_prop coll k \<noteq> JUndef) (own_keys coll)"

text \<open>\<^verbatim>\<open>el.dataset.key = k\<close> sets the attribute \<^verbatim>\<open>data-key\<close>.\<close>

fun set_data_key :: "string \<Rightarrow> elem \<Rightarrow> elem" where
  "set_data_key k (Elem n as kids) =
     Elem n (if ''data-key'' \<in> set (map fst as)
             then map (\<lambda>a. if fst a = ''data-key'' then (''data-key'', k) else a) as
             else as @ [(''data-key'', k)]) kids"

text \<open>One round of the loop that removes the items whose key is gone.\<close>

definition remove_step ::
  "string list \<Rightarrow> (mount_state \<times> collection) option \<Rightarrow> string \<times> elem \<Rightarrow> (mount_state \<times> collection) option" where
  "remove_step keys s ke =
     (case s of
        None \<Rightarrow> None
      | Some (ms, c) \<Rightarrow>
          if fst ke \<in> set keys then Some (ms, c)
          else (case cleanupWithin (snd ke) ms of
                  None \<Rightarrow> None
                | Some ms' \<Rightarrow>
                    Some (ms', c \<lparr> child_ids := removeAll (elem_id (snd ke)) (child_ids c),
                                   rendered := filter (\<lambda>r. fst r \<noteq> fst ke) (rendered c) \<rparr>)))"

text \<open>One round of the loop that adds the items whose key is new.\<close>

definition add_step ::
  "(string \<Rightarrow> shape list) \<Rightarrow> (string \<Rightarrow> jsval) \<Rightarrow> mount_state \<times> collection \<Rightarrow> string \<Rightarrow> mount_state \<times> collection" where
  "add_step parse get s k =
     (let ms = fst s; c = snd s in
      if k \<in> set (map fst (rendered c)) then s
      else (case parse (resolve (collPath c) (templateHTML c) k) of
              [] \<Rightarrow> s
            | sh # others \<Rightarrow>
                (let r = label (next_node ms) sh;
                     el = set_data_key k (fst r);
                     ms1 = ms \<lparr> next_node := snd r \<rparr>
                 in (scanBindings get ms1 (AnElement el),
                     c \<lparr> child_ids := child_ids c @ [elem_id el],
                         rendered := rendered c @ [(k, detach (bound ms1) el)] \<rparr>))))"

definition reconcile ::
  "(string \<Rightarrow> shape list) \<Rightarrow> (string \<Rightarrow> jsval) \<Rightarrow> mount_state \<times> collection \<Rightarrow> (mount_state \<times> collection) option" where
  "reconcile parse get s =
     (let keys = present_keys (or_empty (get (collPath (snd s))));
          keyStr = join_keys keys
      in if keyStr = lastKeyStr (snd s) then Some s
         else (case foldl (remove_step keys) (Some (fst s, (snd s) \<lparr> lastKeyStr := keyStr \<rparr>)) (rendered (snd s)) of
                 None \<Rightarrow> None
               | Some s1 \<Rightarrow> Some (foldl (add_step parse get) s1 keys)))"

section \<open>The store contract\<close>

text \<open>
  Modelled from the spec: the store itself (the package the renderer mounts on) is not
  among the sources.  The spec describes it as a hierarchical mapping addressed by
  dot-separated paths, with \<^verbatim>\<open>get(path)\<close> returning the value or absent, \<^verbatim>\<open>set(path, value)\<close>
  writing and notifying, and \<^verbatim>\<open>batch(fn)\<close> running the writes of \<open>fn\<close> and then flushing
  exactly one notification pass.  A path is followed through mappings only; writing
  through a value that is not a mapping replaces it by a mapping.  The field \<open>passes\<close>
  records, for every notification pass, the contents the subscribers see.
\<close>

fun split_on :: "char \<Rightarrow> string \<Rightarrow> string list" where
  "split_on c [] = [[]]"
| "split_on c (x # xs) =
     (if x = c then [] # split_on c xs
      else (case split_on c xs of [] \<Rightarrow> [[x]] | w # ws \<Rightarrow> (x # w) # ws))"

definition segments :: "string \<Rightarrow> string list" where
  "segments p = split_on CHR ''.'' p"

fun field :: "jsval \<Rightarrow> string \<Rightarrow> jsval" where
  "field (JObj kvs) k = (case map_of kvs k of Some v \<Rightarrow> v | None \<Rightarrow> JUndef)"
| "field v k = JUndef"

fun fields :: "jsval \<Rightarrow> (string \<times> jsval) list" where
  "fields (JObj kvs) = kvs"
| "fields v = []"

fun get_in :: "jsval \<Rightarrow> string list \<Rightarrow> jsval" where
  "get_in v [] = v"
| "get_in v (k # ks) = get_in (field v k) ks"

fun set_in :: "jsval \<Rightarrow> string list \<Rightarrow> jsval \<Rightarrow> jsval" where
  "set_in v [] x = x"
| "set_in v (k # ks) x = JObj (obj_set k (set_in (field v k) ks x) (fields v))"

record store =
  root :: jsval
  passes :: "jsval list"

definition reads :: "jsval \<Rightarrow> string \<Rightarrow> jsval" where
  "reads r p = get_in r (segments p)"

definition store_get :: "store \<Rightarrow> string \<Rightarrow> jsval" where
  "store_get s p = reads (root s) p"

definition apply_write :: "jsval \<Rightarrow> string \<times> jsval \<Rightarrow> jsval" where
  "apply_write r pv = set_in r (segments (fst pv)) (snd pv)"

fun run_call :: "store \<Rightarrow> store_call \<Rightarrow> store" where
  "run_call s (SetCall p v) =
     \<lparr> root = apply_write (root s) (p, v), passes = passes s @ [apply_write (root s) (p, v)] \<rparr>"
| "run_call s (BatchCall ws) =
     \<lparr> root = foldl apply_write (root s) ws, passes = passes s @ [foldl apply_write (root s) ws] \<rparr>"

text \<open>An action executed on a store: the calls of \<open>executeSet\<close>, reading that store.\<close>

definition perform :: "store \<Rightarrow> int \<Rightarrow> string \<Rightarrow> store" where
  "perform s now raw = foldl run_call s (executeSet (store_get s) now raw)"

text \<open>Two paths diverge when they differ at some segment that both have.\<close>

fun diverge :: "string list \<Rightarrow> string list \<Rightarrow> bool" where
  "diverge (a # p) (b # q) = (a \<noteq> b \<or> diverge p q)"
| "diverge p q = False"

subsection \<open>Plain JSON data\<close>

text \<open>
  The order in which an object lists its keys: no array index follows a key that is not
  one, and the array indices ascend.
\<close>

fun key_ordered :: "string list \<Rightarrow> bool" where
  "key_ordered [] = True"
| "key_ordered [k] = True"
| "key_ordered (k # k' # ks) =
     ((if is_array_index k' then is_array_index k \<and> radix_val 10 k < radix_val 10 k' else True)
      \<and> key_ordered (k' # ks))"

text \<open>
  A value that JSON text represents exactly: no undefined, no non-finite number, and
  objects with distinct keys in enumeration order.
\<close>

fun json_plain :: "jsval \<Rightarrow> bool" where
  "json_plain JUndef = False"
| "json_plain JNull = True"
| "json_plain (JBool b) = True"
| "json_plain (JNum n) = (case n of Fin r \<Rightarrow> True | _ \<Rightarrow> False)"
| "json_plain (JStr s) = True"
| "json_plain (JArr xs) = list_all json_plain xs"
| "json_plain (JObj kvs) =
     (distinct (map fst kvs) \<and> key_ordered (map fst kvs) \<and> list_all (\<lambda>kv. json_plain (snd kv)) kvs)"

subsection \<open>Auxiliary notions for the collection reconciler\<close>

text \<open>The registry entry \<open>e\<close> belongs to a node inside the element \<open>c\<close>.\<close>

definition inside :: "elem \<Rightarrow> node \<times> handle \<Rightarrow> bool" where
  "inside c e \<longleftrightarrow> contains c (fst e)"

text \<open>The state \<open>st'\<close> extends \<open>st\<close> by registry entries for nodes in \<open>S\<close> only.\<close>

definition grows :: "node set \<Rightarrow> mount_state \<Rightarrow> mount_state \<Rightarrow> bool" where
  "grows S st st' \<longleftrightarrow>
     (\<exists>extra. subs st' = subs st @ extra \<and> (\<forall>e\<in>set extra. fst e \<in> S)) \<and>
     revoked st' = revoked st \<and> next_node st' = next_node st"

text \<open>
  The invariant of a collection: the keys of the mapping are distinct, so are the
  created elements, each created element is a child of the container, and the
  identities of its nodes are below the next free identity.
\<close>

definition coll_wf :: "mount_state \<Rightarrow> collection \<Rightarrow> bool" where
  "coll_wf ms c \<longleftrightarrow>
     distinct (map fst (rendered c)) \<and>
     distinct (map (\<lambda>r. elem_id (snd r)) (rendered c)) \<and>
     (\<forall>r\<in>set (rendered c). elem_id (snd r) \<in> set (child_ids c)) \<and>
     (\<forall>r\<in>set (rendered c). \<forall>n\<in>set (ids (snd r)). n < next_node ms)"

text \<open>The rendered items whose key is no longer present.\<close>

definition gone :: "string list \<Rightarrow> (string \<times> elem) list \<Rightarrow> (string \<times> elem) list" where
  "gone keys R = filter (\<lambda>r. fst r \<notin> set keys) R"

text \<open>The state \<open>s'\<close> extends \<open>s\<close> by newly created items only.\<close>

definition ext :: "mount_state \<times> collection \<Rightarrow> mount_state \<times> collection \<Rightarrow> bool" where
  "ext s s' \<longleftrightarrow>
     next_node (fst s) \<le> next_node (fst s') \<and>
     collPath (snd s') = collPath (snd s) \<and> templateHTML (snd s') = templateHTML (snd s) \<and>
     lastKeyStr (snd s') = lastKeyStr (snd s) \<and> revoked (fst s') = revoked (fst s) \<and>
     (\<exists>extra. subs (fst s') = subs (fst s) @ extra \<and>
        (\<forall>e\<in>set extra. next_node (fst s) \<le> fst e \<and> fst e < next_node (fst s'))) \<and>
     (\<exists>new. rendered (snd s') = rendered (snd s) @ new \<and>
        child_ids (snd s') = child_ids (snd s) @ map (\<lambda>r. elem_id (snd r)) new \<and>
        distinct (map (\<lambda>r. elem_id (snd r)) new) \<and>
        (\<forall>r\<in>set new. \<forall>n\<in>set (ids (snd r)). next_node (fst s) \<le> n \<and> n < next_node (fst s')))"

subsection \<open>An example document\<close>

text \<open>
  A parser for the markup of the examples: two empty list items, or one list item with
  an unquoted text binding; anything else has no element.
\<close>

definition toy_parse :: "string \<Rightarrow> shape list" where
  "toy_parse html =
     (if html = ''<li></li><li></li>'' then [Shape [] [], Shape [] []]
      else if take 14 html = ''<li bind-text='' \<and> 20 \<le> length html
              \<and> drop (length html - 6) html = ''></li>''
      then [Shape [(''bind-text'', take (length html - 20) (drop 14 html))] []]
      else [])"


definition todo_list :: collection where
  "todo_list = \<lparr> collPath = ''todos'', templateHTML = ''<li bind-text={_path}></li>'',
                 rendered = [], lastKeyStr = [], child_ids = [1] \<rparr>"

definition two_root_list :: collection where
  "two_root_list = \<lparr> collPath = ''todos'', templateHTML = ''<li></li><li></li>'',
                     rendered = [], lastKeyStr = [], child_ids = [1] \<rparr>"

definition text_only_list :: collection where
  "text_only_list = \<lparr> collPath = ''todos'', templateHTML = ''{_key}'',
                      rendered = [], lastKeyStr = [], child_ids = [1] \<rparr>"



definition store_comma :: jsval where
  "store_comma = JObj [(''todos'', JObj [(''a,b'', JNum (Fin 1))])]"

text \<open>The states of the example list after the first and after the second run.\<close>

definition mount_ab :: mount_state where
  "mount_ab = \<lparr> subs = [(10, 0), (11, 1)], bound = {10, 11},
       listeners = [(0, ''todos.a'', OnBinding 10 BText), (1, ''todos.b'', OnBinding 11 BText)],
       next_handle = 2, applied = [(10, BText, JNum (Fin 1)), (11, BText, JNum (Fin 2))],
       inputs = [], revoked = [], next_node = 12 \<rparr>"

definition list_ab :: collection where
  "list_ab = \<lparr> collPath = ''todos'', templateHTML = ''<li bind-text={_path}></li>'',
       rendered = [(''a'', Elem 10 [(''bind-text'', ''todos.a''), (''data-key'', ''a'')] []),
                   (''b'', Elem 11 [(''bind-text'', ''todos.b''), (''data-key'', ''b'')] [])],
       lastKeyStr = ''a,b'', child_ids = [1, 10, 11] \<rparr>"

definition mount_b :: mount_state where
  "mount_b = \<lparr> subs = [(11, 1)], bound = {10, 11},
       listeners = [(1, ''todos.b'', OnBinding 11 BText)],
       next_handle = 2, applied = [(10, BText, JNum (Fin 1)), (11, BText, JNum (Fin 2))],
       inputs = [], revoked = [0], next_node = 12 \<rparr>"

definition list_b :: collection where
  "list_b = \<lparr> collPath = ''todos'', templateHTML = ''<li bind-text={_path}></li>'',
       rendered = [(''b'', Elem 11 [(''bind-text'', ''todos.b''), (''data-key'', ''b'')] [])],
       lastKeyStr = ''b'', child_ids = [1, 11] \<rparr>"

definition mount_comma :: mount_state where
  "mount_comma = \<lparr> subs = [(10, 0)], bound = {10},
       listeners = [(0, ''todos.a,b'', OnBinding 10 BText)],
       next_handle = 1, applied = [(10, BText, JNum (Fin 1))],
       inputs = [], revoked = [], next_node = 11 \<rparr>"

definition list_comma :: collection where
  "list_comma = \<lparr> collPath = ''todos'', templateHTML = ''<li bind-text={_path}></li>'',
       rendered = [(''a,b'', Elem 10 [(''bind-text'', ''todos.a,b''), (''data-key'', ''a,b'')] [])],
       lastKeyStr = ''a,b'', child_ids = [1, 10] \<rparr>"

text \<open>A state with four registry entries, two of them for nodes of the item 10.\<close>

definition item10 :: elem where
  "item10 = Elem 10 [(''bind-text'', ''todos.a'')] [Elem 11 [(''bind-attr-title'', ''todos.a'')] []]"

definition mount4 :: mount_state where
  "mount4 = \<lparr> subs = [(5, 0), (10, 1), (11, 2), (6, 3)], bound = {5, 6, 10, 11},
              listeners = [(0, ''count'', OnBinding 5 BText), (1, ''todos.a'', OnBinding 10 BText),
                           (2, ''todos.a'', OnBinding 11 (BAttr ''title'')), (3, ''count'', OnBinding 6 BValue)],
              next_handle = 4, applied = [], inputs = [], revoked = [], next_node = 12 \<rparr>"

subsection \<open>Store contents used in the examples\<close>

definition three_todos :: "string \<Rightarrow> jsval" where
  "three_todos = (\<lambda>p. if p = ''todos''
     then JObj [(''t1'', JNum (Fin 1)), (''t2'', JStr ''b''), (''t3'', JBool True)] else JUndef)"

definition draft_A :: "string \<Rightarrow> jsval" where
  "draft_A = (\<lambda>p. if p = ''draft'' then JObj [(''text'', JStr ''A'')] else JUndef)"

definition draft_B :: "string \<Rightarrow> jsval" where
  "draft_B = (\<lambda>p. if p = ''draft'' then JObj [(''text'', JStr ''B'')] else JUndef)"

section \<open>Properties of the data operations\<close>

lemma indexOf_None: "indexOf c s = None \<longleftrightarrow> c \<notin> set s"
  by (induction s) auto

lemma indexOf_append: "c \<notin> set pre \<Longrightarrow> indexOf c (pre @ c # rest) = Some (length pre)"
  by (induction pre) auto


lemma lastIndexOf_None: "lastIndexOf c s = None \<longleftrightarrow> c \<notin> set s"
  by (simp add: lastIndexOf_def indexOf_None)


lemma map_of_insert_index:
  "k \<notin> fst ` set kvs \<Longrightarrow>
   map_of (insert_index k v kvs) x = (if x = k then Some v else map_of kvs x)"
  by (induction kvs) auto

lemma map_of_replace_other:
  "x \<noteq> k \<Longrightarrow> map_of (map (\<lambda>kv. if fst kv = k then (k, v) else kv) kvs) x = map_of kvs x"
  by (induction kvs) auto

lemma map_of_replace_same:
  "k \<in> fst ` set kvs \<Longrightarrow> map_of (map (\<lambda>kv. if fst kv = k then (k, v) else kv) kvs) k = Some v"
  by (induction kvs) auto

lemma map_of_replace:
  "k \<in> fst ` set kvs \<Longrightarrow>
   map_of (map (\<lambda>kv. if fst kv = k then (k, v) else kv) kvs) x =
     (if x = k then Some v else map_of kvs x)"
  by (simp add: map_of_replace_other map_of_replace_same)

lemma map_of_snoc:
  "k \<notin> fst ` set kvs \<Longrightarrow>
   map_of (kvs @ [(k, v)]) x = (if x = k then Some v else map_of kvs x)"
  by (induction kvs) auto

lemma map_of_obj_set: "map_of (obj_set k v kvs) x = (if x = k then Some v else map_of kvs x)"
  by (simp add: obj_set_def map_of_insert_index map_of_replace map_of_snoc del: map_of_append)

lemma keys_obj_set: "fst ` set (obj_set k v kvs) = insert k (fst ` set kvs)"
proof -
  have "dom (map_of (obj_set k v kvs)) = insert k (dom (map_of kvs))"
    by (auto simp: dom_def map_of_obj_set)
  then show ?thesis by (simp add: dom_map_of_conv_image_fst)
qed









lemma composite_iff: "composite v \<longleftrightarrow> to_boolean v \<and> type_is_object v"
  by (cases v) auto

lemma radix_val_snoc: "radix_val b (ds @ [c]) = b * radix_val b ds + digit_val c"
  by (simp add: radix_val_def)

lemma digit_val_digit_char: "d < 10 \<Longrightarrow> digit_val (digit_char d) = d"
proof -
  assume "d < 10"
  then have "d \<in> {0,1,2,3,4,5,6,7,8,9}" by auto
  then show ?thesis by (auto simp: digit_val_def digit_char_def is_digit_def)
qed

lemma is_digit_digit_char: "d < 10 \<Longrightarrow> is_digit (digit_char d)"
proof -
  assume "d < 10"
  then have "d \<in> {0,1,2,3,4,5,6,7,8,9}" by auto
  then show ?thesis by (auto simp: digit_char_def is_digit_def)
qed

lemma radix_val_show_nat: "radix_val 10 (show_nat n) = n"
proof (induction n rule: show_nat.induct)
  case (1 n)
  show ?case
  proof (cases "n < 10")
    case True
    then show ?thesis by (simp add: show_nat.simps[of n] radix_val_def digit_val_digit_char)
  next
    case False
    with 1 show ?thesis
      by (simp add: show_nat.simps[of n] radix_val_snoc digit_val_digit_char)
  qed
qed

lemma show_nat_digits: "list_all is_digit (show_nat n) \<and> show_nat n \<noteq> []"
proof (induction n rule: show_nat.induct)
  case (1 n)
  show ?case
  proof (cases "n < 10")
    case True
    then show ?thesis by (simp add: show_nat.simps[of n] is_digit_digit_char)
  next
    case False
    with 1 show ?thesis
      by (simp add: show_nat.simps[of n] is_digit_digit_char)
  qed
qed

lemma show_nat_inj: "show_nat m = show_nat n \<Longrightarrow> m = n"
  by (metis radix_val_show_nat)

lemma show_nat_no_minus: "hd (show_nat n) \<noteq> CHR ''-''"
proof -
  have "is_digit (hd (show_nat n))"
    using show_nat_digits[of n] by (cases "show_nat n") auto
  then show ?thesis by (auto simp: is_digit_def)
qed

lemma show_int_inj: "show_int i = show_int j \<Longrightarrow> i = j"
proof -
  assume eq: "show_int i = show_int j"
  consider "i < 0" "j < 0" | "i < 0" "\<not> j < 0" | "\<not> i < 0" "j < 0" | "\<not> i < 0" "\<not> j < 0" by blast
  then show ?thesis
  proof cases
    case 1
    with eq have "nat (- i) = nat (- j)" by (auto simp: show_int_def dest: show_nat_inj)
    with 1 show ?thesis by simp
  next
    case 2
    with eq have "hd (show_nat (nat j)) = CHR ''-''" by (auto simp: show_int_def dest: arg_cong[where f=hd])
    with show_nat_no_minus show ?thesis by blast
  next
    case 3
    with eq have "hd (show_nat (nat i)) = CHR ''-''" by (auto simp: show_int_def dest: arg_cong[where f=hd])
    with show_nat_no_minus show ?thesis by blast
  next
    case 4
    with eq have "nat i = nat j" by (auto simp: show_int_def dest: show_nat_inj)
    with 4 show ?thesis by simp
  qed
qed

lemma push_key_inj: "push_key a = push_key b \<longleftrightarrow> a = b"
  by (auto simp: push_key_def dest: show_int_inj)

section \<open>Properties of the delegated actions\<close>

lemmas num_defs = str_to_number_def trim_def is_ws_def str_decimal_def parse_unsigned_decimal_def
  is_digit_def parse_exponent_def decimal_value_def radix_val_def digit_val_def pow10_def
  num_or_zero_def radix_literal_def
lemmas json_defs = json_parse_def json_lex_def lex_idle_def json_ws_def punct_tok_def word_tok_def
  json_number_def lex_end_def escape_char_def is_hex_def
lemmas action_defs = executeSet_def parseSetExpr_def parsePush_def match_push_def push_calls_def
  push_key_def show_int_def digit_char_def lastIndexOf_def or_empty_def delete_rebuild_def
  obj_set_def is_array_index_def trim_def is_ws_def Let_def

lemma trim_Nil: "trim [] = []"
  by (simp add: trim_def)

lemma evalExpr_empty: "evalExpr (Some []) cur = JStr []"
  by (simp add: evalExpr_def num_defs json_defs)

lemma parsePush_delete: "parsePush (Some ''delete'') = None"
  by (simp add: parsePush_def match_push_def)

lemma parsePush_empty: "parsePush (Some []) = None"
  by (simp add: parsePush_def)

lemma parsePush_bare: "parsePush (Some ''push'') = Some None"
  by (simp add: parsePush_def)

lemma parseSetExpr_trailing:
  "CHR '':'' \<notin> set pre \<Longrightarrow> parseSetExpr (pre @ '':'') = \<lparr> path = trim pre, expr = Some [] \<rparr>"
  by (simp add: parseSetExpr_def indexOf_append trim_Nil)

lemma expr_None_iff: "expr (parseSetExpr raw) = None \<longleftrightarrow> CHR '':'' \<notin> set raw"
  by (cases "indexOf CHR '':'' raw") (auto simp: parseSetExpr_def indexOf_None[symmetric])

text \<open>
  C10 (as amended).  The parsed expression is absent exactly when the raw action has no
  separator.  For every raw action whose first separator is its last character, the
  parsed expression is the empty string, the empty expression evaluates to the empty
  string whatever the current value is, and the action writes the empty string to the
  path.
\<close>

theorem trailing_separator_expr:
  "(expr (parseSetExpr raw) = None \<longleftrightarrow> CHR '':'' \<notin> set raw) \<and>
   (CHR '':'' \<notin> set pre \<longrightarrow>
      expr (parseSetExpr (pre @ '':'')) = Some [] \<and>
      evalExpr (Some []) cur = JStr [] \<and>
      executeSet get now (pre @ '':'') = [SetCall (trim pre) (JStr [])])"
  by (simp add: expr_None_iff parseSetExpr_trailing evalExpr_empty executeSet_def parsePush_empty)

theorem trailing_separator_expr_witness:
  "expr (parseSetExpr ''count'') = None \<and>
   expr (parseSetExpr ''count:'') = Some [] \<and>
   evalExpr (Some []) (JNum (Fin 7)) = JStr [] \<and>
   executeSet (\<lambda>p. JNum (Fin 7)) 0 ''count:'' = [SetCall ''count'' (JStr [])]"
  using trailing_separator_expr[where raw="''count''" and pre="''count''" and cur="JNum (Fin 7)" and get="\<lambda>p. JNum (Fin 7)" and now=0]
  by (simp add: trim_def is_ws_def)

text \<open>
  C10 as stated fails: the action \<^verbatim>\<open>a:b:\<close> ends with the separator, yet the split is at
  the first separator, so the expression is \<^verbatim>\<open>b:\<close> and that string is written.
\<close>

theorem trailing_separator_counterexample:
  "last ''a:b:'' = CHR '':'' \<and> expr (parseSetExpr ''a:b:'') = Some ''b:''
   \<and> executeSet (\<lambda>p. JUndef) 0 ''a:b:'' = [SetCall ''a'' (JStr ''b:'')]"
  by (simp add: action_defs evalExpr_def num_defs json_defs)

text \<open>
  C6 (as amended).  A delete whose path has no separator, a bare push, and a push whose
  source path is empty or whose source value is not a composite value make no call on the
  store.  A delete whose parent path holds no (truthy) value is not a no-op: it writes
  the empty mapping to the parent path.
\<close>

theorem delete_push_noop:
  "(expr (parseSetExpr raw) = Some ''delete'' \<and> CHR ''.'' \<notin> set (path (parseSetExpr raw))
      \<longrightarrow> executeSet get now raw = []) \<and>
   (expr (parseSetExpr raw) = Some ''push'' \<longrightarrow> executeSet get now raw = []) \<and>
   (parsePush (expr (parseSetExpr raw)) = Some (Some src) \<and> (src = [] \<or> \<not> composite (get src))
      \<longrightarrow> executeSet get now raw = []) \<and>
   (expr (parseSetExpr raw) = Some ''delete'' \<and>
    lastIndexOf CHR ''.'' (path (parseSetExpr raw)) = Some dot \<and>
    \<not> to_boolean (get (take dot (path (parseSetExpr raw))))
      \<longrightarrow> executeSet get now raw = [SetCall (take dot (path (parseSetExpr raw))) (JObj [])])"
proof (intro conjI impI)
  assume "expr (parseSetExpr raw) = Some ''delete'' \<and> CHR ''.'' \<notin> set (path (parseSetExpr raw))"
  then show "executeSet get now raw = []"
    by (simp add: executeSet_def lastIndexOf_None[symmetric])
next
  assume "expr (parseSetExpr raw) = Some ''push''"
  then show "executeSet get now raw = []"
    by (simp add: executeSet_def parsePush_bare)
next
  assume a: "parsePush (expr (parseSetExpr raw)) = Some (Some src) \<and> (src = [] \<or> \<not> composite (get src))"
  then have "expr (parseSetExpr raw) \<noteq> Some ''delete''"
    using parsePush_delete by auto
  with a show "executeSet get now raw = []"
    by (auto simp: executeSet_def composite_iff)
next
  assume "expr (parseSetExpr raw) = Some ''delete'' \<and>
    lastIndexOf CHR ''.'' (path (parseSetExpr raw)) = Some dot \<and>
    \<not> to_boolean (get (take dot (path (parseSetExpr raw))))"
  then show "executeSet get now raw = [SetCall (take dot (path (parseSetExpr raw))) (JObj [])]"
    by (simp add: executeSet_def or_empty_def delete_rebuild_def)
qed

theorem delete_push_noop_witness:
  "executeSet (\<lambda>p. JObj []) 0 ''todos:delete'' = [] \<and>
   executeSet (\<lambda>p. JObj []) 0 ''todos:push'' = [] \<and>
   executeSet (\<lambda>p. JStr ''x'') 0 ''todos:push(draft)'' = [] \<and>
   executeSet (\<lambda>p. JUndef) 0 ''todos.t1:delete'' = [SetCall ''todos'' (JObj [])]"
  using delete_push_noop[where raw="''todos:delete''" and get="\<lambda>p. JObj []" and now=0]
    delete_push_noop[where raw="''todos:push''" and get="\<lambda>p. JObj []" and now=0]
    delete_push_noop[where raw="''todos:push(draft)''" and get="\<lambda>p. JStr ''x''" and src="''draft''" and now=0]
    delete_push_noop[where raw="''todos.t1:delete''" and get="\<lambda>p. JUndef" and now=0 and dot=5]
  by (simp add: parseSetExpr_def trim_def is_ws_def parsePush_def match_push_def lastIndexOf_def)

text \<open>
  C6 as stated fails: on a store where every path is absent, deleting \<^verbatim>\<open>todos.t1\<close>
  writes an empty mapping to \<^verbatim>\<open>todos\<close>.
\<close>

theorem delete_absent_parent_counterexample:
  "(\<lambda>p. JUndef) ''todos'' = JUndef \<and>
   executeSet (\<lambda>p. JUndef) 0 ''todos.t1:delete'' = [SetCall ''todos'' (JObj [])]"
  by (simp add: action_defs)




lemma delete_three_keys:
  "executeSet three_todos 0 ''todos.t1:delete'' = [SetCall ''todos'' (JObj [(''t2'', JStr ''b''), (''t3'', JBool True)])]"
  by (simp add: three_todos_def action_defs is_digit_def)

lemma show_nat_no_dot: "CHR ''.'' \<notin> set (show_nat n)"
proof
  assume "CHR ''.'' \<in> set (show_nat n)"
  with show_nat_digits[of n] have "is_digit CHR ''.''" by (auto simp: list_all_iff)
  then show False by (simp add: is_digit_def)
qed

lemma push_key_no_dot: "CHR ''.'' \<notin> set (push_key now)"
  by (simp add: push_key_def show_int_def show_nat_no_dot)

text \<open>
  C9 (as amended).  A push with a composite source writes the copy under the target path
  extended by one segment, the key \<^verbatim>\<open>t_\<close> followed by the clock reading.  Two executions
  generate the same key exactly when their clock readings are equal.
\<close>

theorem push_key_by_clock:
  assumes "parsePush (expr (parseSetExpr raw)) = Some (Some src)"
    and "src \<noteq> []" and "composite (get src)"
  shows "(\<exists>rest. executeSet get now raw =
            [BatchCall ((path (parseSetExpr raw) @ ''.'' @ push_key now, json_clone (get src)) # rest)])
         \<and> CHR ''.'' \<notin> set (push_key now)
         \<and> (\<forall>now'. push_key now' = push_key now \<longleftrightarrow> now' = now)"
proof -
  from assms(1) have "expr (parseSetExpr raw) \<noteq> Some ''delete''"
    using parsePush_delete by auto
  with assms have "executeSet get now raw =
     [BatchCall (push_calls (path (parseSetExpr raw)) src (get src) (push_key now))]"
    by (auto simp: executeSet_def composite_iff)
  then show ?thesis
    by (simp add: push_calls_def push_key_no_dot push_key_inj)
qed


theorem push_key_by_clock_witness:
  "(\<exists>rest. executeSet draft_A 1700000000000 ''todos:push(draft)'' =
            [BatchCall ((''todos'' @ ''.'' @ push_key 1700000000000, json_clone (draft_A ''draft'')) # rest)])
   \<and> CHR ''.'' \<notin> set (push_key 1700000000000)
   \<and> (\<forall>now'. push_key now' = push_key 1700000000000 \<longleftrightarrow> now' = 1700000000000)"
  using push_key_by_clock[where raw="''todos:push(draft)''" and src="''draft''" and get=draft_A and now=1700000000000]
  by (simp add: parseSetExpr_def trim_def is_ws_def parsePush_def match_push_def draft_A_def)

text \<open>
  C9 as stated fails: two push executions at the same clock reading, the second after the
  draft has changed, write to the same path, so the second entry replaces the first.
\<close>

theorem push_same_clock_counterexample:
  "executeSet draft_A 1700000000000 ''todos:push(draft)'' =
     [BatchCall [(''todos.t_1700000000000'', JObj [(''text'', JStr ''A'')]), (''draft.text'', JStr [])]]
   \<and> executeSet draft_B 1700000000000 ''todos:push(draft)'' =
     [BatchCall [(''todos.t_1700000000000'', JObj [(''text'', JStr ''B'')]), (''draft.text'', JStr [])]]"
  by (simp add: draft_A_def draft_B_def action_defs show_nat.simps is_digit_def)





section \<open>Properties of the registry and the scan\<close>

lemma cleanup_loop_inv:
  "i \<le> length (subs st) \<Longrightarrow>
   \<exists>st'. cleanup_loop c i st = Some st' \<and>
     subs st' = filter (\<lambda>e. \<not> inside c e) (take i (subs st)) @ drop i (subs st) \<and>
     revoked st' = revoked st @ rev (map snd (filter (inside c) (take i (subs st)))) \<and>
     listeners st' = filter (\<lambda>l. fst l \<notin> snd ` set (filter (inside c) (take i (subs st)))) (listeners st) \<and>
     bound st' = bound st \<and> next_handle st' = next_handle st \<and> applied st' = applied st \<and>
     inputs st' = inputs st \<and> next_node st' = next_node st"
proof (induction i arbitrary: st)
  case 0
  then show ?case by simp
next
  case (Suc i)
  then have il: "i < length (subs st)" by simp
  have tk: "take (Suc i) (subs st) = take i (subs st) @ [subs st ! i]"
    using il by (simp add: take_Suc_conv_app_nth)
  show ?case
  proof (cases "contains c (fst (subs st ! i))")
    case True
    let ?st1 = "(unsub (snd (subs st ! i)) st) \<lparr> subs := take i (subs st) @ drop (Suc i) (subs st) \<rparr>"
    have len: "i \<le> length (subs ?st1)" using il by simp
    from Suc.IH[OF len] obtain st' where st': "cleanup_loop c i ?st1 = Some st'"
      "subs st' = filter (\<lambda>e. \<not> inside c e) (take i (subs ?st1)) @ drop i (subs ?st1)"
      "revoked st' = revoked ?st1 @ rev (map snd (filter (inside c) (take i (subs ?st1))))"
      "listeners st' = filter (\<lambda>l. fst l \<notin> snd ` set (filter (inside c) (take i (subs ?st1)))) (listeners ?st1)"
      "bound st' = bound ?st1" "next_handle st' = next_handle ?st1" "applied st' = applied ?st1"
      "inputs st' = inputs ?st1" "next_node st' = next_node ?st1"
      by blast
    have t1: "take i (subs ?st1) = take i (subs st)" using il by simp
    have d1: "drop i (subs ?st1) = drop (Suc i) (subs st)" using il by simp
    have w: "inside c (subs st ! i)" using True by (simp add: inside_def)
    have s2: "subs st' = filter (\<lambda>e. \<not> inside c e) (take i (subs st)) @ drop (Suc i) (subs st)"
      using st'(2) by (simp only: t1 d1)
    have s3: "revoked st' = revoked ?st1 @ rev (map snd (filter (inside c) (take i (subs st))))"
      using st'(3) by (simp only: t1)
    have s4: "listeners st' = filter (\<lambda>l. fst l \<notin> snd ` set (filter (inside c) (take i (subs st)))) (listeners ?st1)"
      using st'(4) by (simp only: t1)
    have r1: "revoked ?st1 = revoked st @ [snd (subs st ! i)]" by (simp add: unsub_def)
    have l1: "listeners ?st1 = filter (\<lambda>l. fst l \<noteq> snd (subs st ! i)) (listeners st)" by (simp add: unsub_def)
    have "cleanup_loop c (Suc i) st = Some st'" using il True st'(1) by simp
    moreover have "subs st' = filter (\<lambda>e. \<not> inside c e) (take (Suc i) (subs st)) @ drop (Suc i) (subs st)"
      using s2 w by (simp add: tk)
    moreover have "revoked st' = revoked st @ rev (map snd (filter (inside c) (take (Suc i) (subs st))))"
      using s3 w by (simp add: tk r1)
    moreover have "listeners st' = filter (\<lambda>l. fst l \<notin> snd ` set (filter (inside c) (take (Suc i) (subs st)))) (listeners st)"
      using s4 w by (auto simp: tk l1 intro: filter_cong)
    moreover have "bound st' = bound st \<and> next_handle st' = next_handle st \<and> applied st' = applied st \<and>
     inputs st' = inputs st \<and> next_node st' = next_node st"
      using st'(5-9) by (simp add: unsub_def)
    ultimately show ?thesis by blast
  next
    case False
    have len: "i \<le> length (subs st)" using il by simp
    from Suc.IH[OF len] obtain st' where st': "cleanup_loop c i st = Some st'"
      "subs st' = filter (\<lambda>e. \<not> inside c e) (take i (subs st)) @ drop i (subs st)"
      "revoked st' = revoked st @ rev (map snd (filter (inside c) (take i (subs st))))"
      "listeners st' = filter (\<lambda>l. fst l \<notin> snd ` set (filter (inside c) (take i (subs st)))) (listeners st)"
      "bound st' = bound st \<and> next_handle st' = next_handle st \<and> applied st' = applied st \<and>
     inputs st' = inputs st \<and> next_node st' = next_node st"
      by blast
    have w: "\<not> inside c (subs st ! i)" using False by (simp add: inside_def)
    have dr: "drop i (subs st) = subs st ! i # drop (Suc i) (subs st)"
      using il by (simp add: Cons_nth_drop_Suc)
    have "cleanup_loop c (Suc i) st = Some st'" using il False st'(1) by simp
    moreover have "subs st' = filter (\<lambda>e. \<not> inside c e) (take (Suc i) (subs st)) @ drop (Suc i) (subs st)"
      using st'(2) w tk dr by simp
    moreover have "revoked st' = revoked st @ rev (map snd (filter (inside c) (take (Suc i) (subs st))))"
      using st'(3) w tk by simp
    moreover have "listeners st' = filter (\<lambda>l. fst l \<notin> snd ` set (filter (inside c) (take (Suc i) (subs st)))) (listeners st)"
      using st'(4) w tk by simp
    ultimately show ?thesis using st'(5) by blast
  qed
qed

lemma cleanupWithin_result:
  "\<exists>st'. cleanupWithin c st = Some st' \<and>
     subs st' = filter (\<lambda>e. \<not> inside c e) (subs st) \<and>
     revoked st' = revoked st @ rev (map snd (filter (inside c) (subs st))) \<and>
     listeners st' = filter (\<lambda>l. fst l \<notin> snd ` set (filter (inside c) (subs st))) (listeners st) \<and>
     bound st' = bound st \<and> next_handle st' = next_handle st \<and> applied st' = applied st \<and>
     inputs st' = inputs st \<and> next_node st' = next_node st"
  using cleanup_loop_inv[of "length (subs st)" st c] by (simp add: cleanupWithin_def)

text \<open>
  C4.  Revoking within a container never reads the registry outside its bounds, so it
  returns; the registry afterwards is the registry before without the entries whose node
  the container contains, the other entries kept in their order; the handles of exactly
  the removed entries are invoked, each once (last entry first), and their subscriptions
  leave the store.
\<close>

theorem cleanupWithin_exact:
  "\<exists>st'. cleanupWithin c st = Some st' \<and>
     subs st' = filter (\<lambda>e. \<not> contains c (fst e)) (subs st) \<and>
     revoked st' = revoked st @ rev (map snd (filter (\<lambda>e. contains c (fst e)) (subs st))) \<and>
     listeners st' =
       filter (\<lambda>l. fst l \<notin> snd ` set (filter (\<lambda>e. contains c (fst e)) (subs st))) (listeners st)"
  using cleanupWithin_result[of c st] by (auto simp: inside_def[abs_def])

theorem cleanupWithin_exact_witness:
  "\<exists>st'. cleanupWithin item10 mount4 = Some st' \<and>
     subs st' = [(5, 0), (6, 3)] \<and> revoked st' = [2, 1] \<and>
     listeners st' = [(0, ''count'', OnBinding 5 BText), (3, ''count'', OnBinding 6 BValue)]"
  using cleanupWithin_exact[of item10 mount4]
  by (simp add: item10_def mount4_def contains_def ids_def)















lemma grows_refl: "grows S st st"
  by (simp add: grows_def)

lemma grows_trans: "grows S a b \<Longrightarrow> grows S b c \<Longrightarrow> grows S a c"
  by (auto simp: grows_def)

lemma grows_mono: "grows S a b \<Longrightarrow> S \<subseteq> T \<Longrightarrow> grows T a b"
  by (auto simp: grows_def)

lemma grows_addBinding: "grows {n} st (addBinding get p n k st)"
  by (simp add: grows_def addBinding_def)

lemma grows_bind_attr: "grows {n} st (bind_attr get n st a)"
  by (simp add: bind_attr_def grows_addBinding grows_refl)

lemma grows_bind_attrs: "grows {n} st (foldl (bind_attr get n) st as)"
proof (induction as arbitrary: st)
  case Nil
  then show ?case by (simp add: grows_refl)
next
  case (Cons a as)
  show ?case using grows_trans[OF grows_bind_attr Cons] by simp
qed

lemma grows_bind_text: "grows {n} st (bind_text get n as st)"
  by (simp add: bind_text_def grows_addBinding grows_refl split: option.splits)

lemma grows_bind_focus: "grows {n} st (bind_focus get n as st)"
  by (simp add: bind_focus_def grows_addBinding grows_refl split: option.splits)

lemma grows_bind_value: "grows {n} st (bind_value get n as st)"
  using grows_addBinding[of n st get _ BValue]
  by (auto simp: bind_value_def grows_refl grows_def split: option.splits)

lemma grows_mark: "grows S st (st \<lparr> bound := b \<rparr>)"
  by (simp add: grows_def)

lemma grows_scan_node: "grows {fst na} st (scan_node get st na)"
proof (cases "fst na \<in> bound st")
  case True
  then show ?thesis by (simp add: scan_node_def grows_refl)
next
  case False
  let ?s0 = "st \<lparr> bound := insert (fst na) (bound st) \<rparr>"
  let ?s1 = "bind_text get (fst na) (snd na) ?s0"
  let ?s2 = "bind_value get (fst na) (snd na) ?s1"
  let ?s3 = "bind_focus get (fst na) (snd na) ?s2"
  have "grows {fst na} st ?s3"
    by (rule grows_trans[OF grows_trans[OF grows_trans[OF grows_mark grows_bind_text] grows_bind_value] grows_bind_focus])
  from grows_trans[OF this grows_bind_attrs]
  show ?thesis using False by (simp add: scan_node_def)
qed

lemma grows_scan_nodes: "grows (fst ` set ns) st (foldl (scan_node get) st ns)"
proof (induction ns arbitrary: st)
  case Nil
  then show ?case by (simp add: grows_refl)
next
  case (Cons a ns)
  have 1: "grows (fst ` set (a # ns)) st (scan_node get st a)"
    by (rule grows_mono[OF grows_scan_node]) simp
  have 2: "grows (fst ` set (a # ns)) (scan_node get st a) (foldl (scan_node get) (scan_node get st a) ns)"
    by (rule grows_mono[OF Cons]) auto
  from grows_trans[OF 1 2] show ?case by simp
qed

lemma grows_scanBindings: "grows (set (ids el)) st (scanBindings get st (AnElement el))"
  using grows_scan_nodes[of "nodes_of el" st get] by (simp add: ids_def)

lemma ids_Elem: "ids (Elem n as kids) = n # concat (map ids kids)"
  by (simp add: ids_def[abs_def] map_concat comp_def)

lemma label_ids:
  "set (ids (fst (label n sh))) = {n..<snd (label n sh)} \<and> n < snd (label n sh) \<and> elem_id (fst (label n sh)) = n"
  "(\<Union>e\<in>set (fst (label_list n ss)). set (ids e)) = {n..<snd (label_list n ss)} \<and> n \<le> snd (label_list n ss)"
proof (induction n sh and n ss rule: label_label_list.induct)
  case (1 n as kids)
  then show ?case by (auto simp: ids_Elem Let_def)
next
  case (2 n)
  then show ?case by simp
next
  case (3 n s ss)
  then show ?case by (auto simp: Let_def)
qed

lemma ids_set_data_key: "ids (set_data_key k el) = ids el"
  by (cases el) (simp add: ids_Elem)

lemma elem_id_set_data_key: "elem_id (set_data_key k el) = elem_id el"
  by (cases el) simp

lemma elem_id_detach: "elem_id (detach bnd el) = elem_id el"
  by (cases el) simp

lemma ids_detach: "set (ids (detach bnd el)) \<subseteq> set (ids el)"
proof (induction bnd el rule: detach.induct)
  case (1 bnd n as kids)
  then show ?case by (auto simp: ids_Elem)
qed

lemma elem_id_in_ids: "elem_id el \<in> set (ids el)"
  by (cases el) (simp add: ids_Elem)

section \<open>Properties of the reconciler\<close>

lemma ext_refl: "ext s s"
  by (simp add: ext_def)

lemma ext_trans:
  assumes "ext a b" and "ext b c"
  shows "ext a c"
proof -
  from assms(1) obtain e1 n1 where 1:
    "next_node (fst a) \<le> next_node (fst b)"
    "collPath (snd b) = collPath (snd a)" "templateHTML (snd b) = templateHTML (snd a)"
    "lastKeyStr (snd b) = lastKeyStr (snd a)" "revoked (fst b) = revoked (fst a)"
    "subs (fst b) = subs (fst a) @ e1"
    "\<forall>e\<in>set e1. next_node (fst a) \<le> fst e \<and> fst e < next_node (fst b)"
    "rendered (snd b) = rendered (snd a) @ n1"
    "child_ids (snd b) = child_ids (snd a) @ map (\<lambda>r. elem_id (snd r)) n1"
    "distinct (map (\<lambda>r. elem_id (snd r)) n1)"
    "\<forall>r\<in>set n1. \<forall>n\<in>set (ids (snd r)). next_node (fst a) \<le> n \<and> n < next_node (fst b)"
    unfolding ext_def by blast
  from assms(2) obtain e2 n2 where 2:
    "next_node (fst b) \<le> next_node (fst c)"
    "collPath (snd c) = collPath (snd b)" "templateHTML (snd c) = templateHTML (snd b)"
    "lastKeyStr (snd c) = lastKeyStr (snd b)" "revoked (fst c) = revoked (fst b)"
    "subs (fst c) = subs (fst b) @ e2"
    "\<forall>e\<in>set e2. next_node (fst b) \<le> fst e \<and> fst e < next_node (fst c)"
    "rendered (snd c) = rendered (snd b) @ n2"
    "child_ids (snd c) = child_ids (snd b) @ map (\<lambda>r. elem_id (snd r)) n2"
    "distinct (map (\<lambda>r. elem_id (snd r)) n2)"
    "\<forall>r\<in>set n2. \<forall>n\<in>set (ids (snd r)). next_node (fst b) \<le> n \<and> n < next_node (fst c)"
    unfolding ext_def by blast
  have s: "subs (fst c) = subs (fst a) @ (e1 @ e2)" using 1(6) 2(6) by simp
  have sb: "\<forall>e\<in>set (e1 @ e2). next_node (fst a) \<le> fst e \<and> fst e < next_node (fst c)"
    using 1(1,7) 2(1,7) by fastforce
  have r: "rendered (snd c) = rendered (snd a) @ (n1 @ n2)" using 1(8) 2(8) by simp
  have k: "child_ids (snd c) = child_ids (snd a) @ map (\<lambda>r. elem_id (snd r)) (n1 @ n2)"
    using 1(9) 2(9) by simp
  have rb: "\<forall>r\<in>set (n1 @ n2). \<forall>n\<in>set (ids (snd r)). next_node (fst a) \<le> n \<and> n < next_node (fst c)"
    using 1(1,11) 2(1,11) by fastforce
  have disj: "elem_id (snd x) \<noteq> elem_id (snd y)" if "x \<in> set n1" "y \<in> set n2" for x y
  proof -
    have "elem_id (snd x) < next_node (fst b)" using 1(11) that(1) elem_id_in_ids by blast
    moreover have "next_node (fst b) \<le> elem_id (snd y)" using 2(11) that(2) elem_id_in_ids by blast
    ultimately show ?thesis by simp
  qed
  have d: "distinct (map (\<lambda>r. elem_id (snd r)) (n1 @ n2))"
    using 1(10) 2(10) disj by auto
  show ?thesis
    unfolding ext_def using 1(1-5) 2(1-5) s sb r k rb d
    by (intro conjI exI[of _ "e1 @ e2"] exI[of _ "n1 @ n2"]) simp_all
qed

lemma add_step_skip:
  "k \<in> fst ` set (rendered (snd s)) \<or> parse (resolve (collPath (snd s)) (templateHTML (snd s)) k) = []
   \<Longrightarrow> add_step parse get s k = s"
  by (auto simp: add_step_def Let_def)

lemma add_step_insert:
  assumes "k \<notin> fst ` set (rendered (snd s))"
    and "parse (resolve (collPath (snd s)) (templateHTML (snd s)) k) = sh # others"
  shows "add_step parse get s k =
     (scanBindings get ((fst s) \<lparr> next_node := snd (label (next_node (fst s)) sh) \<rparr>)
        (AnElement (set_data_key k (fst (label (next_node (fst s)) sh)))),
      (snd s) \<lparr> child_ids := child_ids (snd s) @ [next_node (fst s)],
               rendered := rendered (snd s) @
                 [(k, detach (bound (fst s)) (set_data_key k (fst (label (next_node (fst s)) sh))))] \<rparr>)"
  using assms by (simp add: add_step_def Let_def elem_id_set_data_key label_ids)

lemma ext_add_step: "ext s (add_step parse get s k)"
proof (cases "k \<in> fst ` set (rendered (snd s)) \<or> parse (resolve (collPath (snd s)) (templateHTML (snd s)) k) = []")
  case True
  then show ?thesis by (simp add: add_step_skip ext_refl)
next
  case False
  then obtain sh others where p: "parse (resolve (collPath (snd s)) (templateHTML (snd s)) k) = sh # others"
    and nk: "k \<notin> fst ` set (rendered (snd s))"
    by (cases "parse (resolve (collPath (snd s)) (templateHTML (snd s)) k)") auto
  let ?n = "next_node (fst s)"
  let ?n' = "snd (label ?n sh)"
  let ?el = "set_data_key k (fst (label ?n sh))"
  let ?ms1 = "(fst s) \<lparr> next_node := ?n' \<rparr>"
  let ?ms2 = "scanBindings get ?ms1 (AnElement ?el)"
  have ids_el: "set (ids ?el) = {?n..<?n'}" and lt: "?n < ?n'"
    using label_ids(1)[of ?n sh] by (simp_all add: ids_set_data_key)
  from grows_scanBindings[of ?el ?ms1 get] obtain extra where ex:
    "subs ?ms2 = subs (fst s) @ extra" "\<forall>e\<in>set extra. fst e \<in> set (ids ?el)"
    "revoked ?ms2 = revoked (fst s)" "next_node ?ms2 = ?n'"
    by (auto simp: grows_def)
  have exb: "\<forall>e\<in>set extra. ?n \<le> fst e \<and> fst e < ?n'" using ex(2) ids_el by auto
  have det: "\<forall>n\<in>set (ids (detach (bound (fst s)) ?el)). ?n \<le> n \<and> n < ?n'"
    using ids_detach[of "bound (fst s)" ?el] ids_el by auto
  have eid: "elem_id (detach (bound (fst s)) ?el) = ?n"
    by (simp add: elem_id_detach elem_id_set_data_key label_ids)
  show ?thesis
    unfolding ext_def add_step_insert[where parse=parse and get=get and s=s and k=k, OF nk p]
    using lt ex exb det eid
    by (intro conjI exI[of _ extra] exI[of _ "[(k, detach (bound (fst s)) ?el)]"]) simp_all
qed

lemma ext_add_loop: "ext s (foldl (add_step parse get) s ks)"
proof (induction ks arbitrary: s)
  case Nil
  then show ?case by (simp add: ext_refl)
next
  case (Cons k ks)
  from ext_trans[OF ext_add_step Cons] show ?case by simp
qed

lemma keys_add_step:
  "fst ` set (rendered (snd (add_step parse get s k))) =
   fst ` set (rendered (snd s)) \<union>
     (if parse (resolve (collPath (snd s)) (templateHTML (snd s)) k) \<noteq> [] then {k} else {})"
proof (cases "k \<in> fst ` set (rendered (snd s)) \<or> parse (resolve (collPath (snd s)) (templateHTML (snd s)) k) = []")
  case True
  then show ?thesis by (auto simp: add_step_skip)
next
  case False
  then obtain sh others where p: "parse (resolve (collPath (snd s)) (templateHTML (snd s)) k) = sh # others"
    and nk: "k \<notin> fst ` set (rendered (snd s))"
    by (cases "parse (resolve (collPath (snd s)) (templateHTML (snd s)) k)") auto
  show ?thesis unfolding add_step_insert[where parse=parse and get=get and s=s and k=k, OF nk p] using p by simp
qed

lemma keys_add_loop:
  "fst ` set (rendered (snd (foldl (add_step parse get) s ks))) =
   fst ` set (rendered (snd s)) \<union>
     {k \<in> set ks. parse (resolve (collPath (snd s)) (templateHTML (snd s)) k) \<noteq> []}"
proof (induction ks arbitrary: s)
  case Nil
  then show ?case by simp
next
  case (Cons k ks)
  let ?s1 = "add_step parse get s k"
  have same: "collPath (snd ?s1) = collPath (snd s)" "templateHTML (snd ?s1) = templateHTML (snd s)"
    using ext_add_step[of s parse get k] by (simp_all add: ext_def)
  have "fst ` set (rendered (snd (foldl (add_step parse get) ?s1 ks))) =
      fst ` set (rendered (snd ?s1)) \<union>
       {k \<in> set ks. parse (resolve (collPath (snd s)) (templateHTML (snd s)) k) \<noteq> []}"
    using Cons[of ?s1] by (simp only: same)
  then show ?case by (auto simp: keys_add_step)
qed

lemma distinct_keys_add_step:
  "distinct (map fst (rendered (snd s))) \<Longrightarrow> distinct (map fst (rendered (snd (add_step parse get s k))))"
proof (cases "k \<in> fst ` set (rendered (snd s)) \<or> parse (resolve (collPath (snd s)) (templateHTML (snd s)) k) = []")
  case True
  moreover assume "distinct (map fst (rendered (snd s)))"
  ultimately show ?thesis by (simp add: add_step_skip)
next
  case False
  assume d: "distinct (map fst (rendered (snd s)))"
  from False obtain sh others where p: "parse (resolve (collPath (snd s)) (templateHTML (snd s)) k) = sh # others"
    and nk: "k \<notin> fst ` set (rendered (snd s))"
    by (cases "parse (resolve (collPath (snd s)) (templateHTML (snd s)) k)") auto
  show ?thesis unfolding add_step_insert[where parse=parse and get=get and s=s and k=k, OF nk p] using d nk by simp
qed

lemma distinct_keys_add_loop:
  "distinct (map fst (rendered (snd s))) \<Longrightarrow>
   distinct (map fst (rendered (snd (foldl (add_step parse get) s ks))))"
  by (induction ks arbitrary: s) (simp_all add: distinct_keys_add_step)

lemma removeAll_as_filter: "removeAll x xs = filter (\<lambda>n. n \<noteq> x) xs"
  by (induction xs) auto

lemma remove_step_keep:
  "fst ke \<in> set keys \<Longrightarrow> remove_step keys (Some (ms, c)) ke = Some (ms, c)"
  by (simp add: remove_step_def)

lemma remove_step_drop:
  assumes "fst ke \<notin> set keys"
  shows "\<exists>ms'. remove_step keys (Some (ms, c)) ke =
           Some (ms', c \<lparr> child_ids := filter (\<lambda>n. n \<noteq> elem_id (snd ke)) (child_ids c),
                          rendered := filter (\<lambda>r. fst r \<noteq> fst ke) (rendered c) \<rparr>) \<and>
         subs ms' = filter (\<lambda>e. \<not> contains (snd ke) (fst e)) (subs ms) \<and>
         revoked ms' = revoked ms @ rev (map snd (filter (\<lambda>e. contains (snd ke) (fst e)) (subs ms))) \<and>
         next_node ms' = next_node ms \<and> bound ms' = bound ms"
proof -
  from cleanupWithin_result[of "snd ke" ms] obtain ms' where m:
    "cleanupWithin (snd ke) ms = Some ms'"
    "subs ms' = filter (\<lambda>e. \<not> inside (snd ke) e) (subs ms)"
    "revoked ms' = revoked ms @ rev (map snd (filter (inside (snd ke)) (subs ms)))"
    "next_node ms' = next_node ms" "bound ms' = bound ms"
    by blast
  have rm: "removeAll (elem_id (snd ke)) (child_ids c) = filter (\<lambda>n. n \<noteq> elem_id (snd ke)) (child_ids c)"
    by (rule removeAll_as_filter)
  show ?thesis
    using assms m rm by (auto simp: remove_step_def inside_def[abs_def])
qed

lemma remove_loop:
  "\<exists>ms' c'. foldl (remove_step keys) (Some (ms, c)) R = Some (ms', c') \<and>
     rendered c' = filter (\<lambda>r. fst r \<notin> fst ` set (gone keys R)) (rendered c) \<and>
     child_ids c' = filter (\<lambda>n. n \<notin> (\<lambda>r. elem_id (snd r)) ` set (gone keys R)) (child_ids c) \<and>
     subs ms' = filter (\<lambda>e. \<forall>r\<in>set (gone keys R). \<not> contains (snd r) (fst e)) (subs ms) \<and>
     set (revoked ms) \<subseteq> set (revoked ms') \<and>
     (\<forall>e\<in>set (subs ms). (\<exists>r\<in>set (gone keys R). contains (snd r) (fst e)) \<longrightarrow> snd e \<in> set (revoked ms')) \<and>
     next_node ms' = next_node ms \<and> bound ms' = bound ms \<and>
     collPath c' = collPath c \<and> templateHTML c' = templateHTML c \<and> lastKeyStr c' = lastKeyStr c"
proof (induction R arbitrary: ms c)
  case Nil
  then show ?case by (simp add: gone_def)
next
  case (Cons ke R)
  show ?case
  proof (cases "fst ke \<in> set keys")
    case True
    then have g: "gone keys (ke # R) = gone keys R" by (simp add: gone_def)
    from Cons[of ms c] show ?thesis
      by (simp only: foldl_Cons remove_step_keep[OF True] g)
  next
    case False
    then have g: "gone keys (ke # R) = ke # gone keys R" by (simp add: gone_def)
    let ?c1 = "c \<lparr> child_ids := filter (\<lambda>n. n \<noteq> elem_id (snd ke)) (child_ids c),
                   rendered := filter (\<lambda>r. fst r \<noteq> fst ke) (rendered c) \<rparr>"
    from remove_step_drop[OF False, of ms c] obtain ms1 where m1:
      "remove_step keys (Some (ms, c)) ke = Some (ms1, ?c1)"
      "subs ms1 = filter (\<lambda>e. \<not> contains (snd ke) (fst e)) (subs ms)"
      "revoked ms1 = revoked ms @ rev (map snd (filter (\<lambda>e. contains (snd ke) (fst e)) (subs ms)))"
      "next_node ms1 = next_node ms" "bound ms1 = bound ms"
      by blast
    from Cons[of ms1 ?c1] obtain ms' c' where r:
      "foldl (remove_step keys) (Some (ms1, ?c1)) R = Some (ms', c')"
      "rendered c' = filter (\<lambda>r. fst r \<notin> fst ` set (gone keys R)) (rendered ?c1)"
      "child_ids c' = filter (\<lambda>n. n \<notin> (\<lambda>r. elem_id (snd r)) ` set (gone keys R)) (child_ids ?c1)"
      "subs ms' = filter (\<lambda>e. \<forall>r\<in>set (gone keys R). \<not> contains (snd r) (fst e)) (subs ms1)"
      "set (revoked ms1) \<subseteq> set (revoked ms')"
      "\<forall>e\<in>set (subs ms1). (\<exists>r\<in>set (gone keys R). contains (snd r) (fst e)) \<longrightarrow> snd e \<in> set (revoked ms')"
      "next_node ms' = next_node ms1" "bound ms' = bound ms1"
      "collPath c' = collPath ?c1" "templateHTML c' = templateHTML ?c1" "lastKeyStr c' = lastKeyStr ?c1"
      by blast
    have f: "foldl (remove_step keys) (Some (ms, c)) (ke # R) = Some (ms', c')"
      using m1(1) r(1) by simp
    have a: "rendered c' = filter (\<lambda>r. fst r \<notin> fst ` set (gone keys (ke # R))) (rendered c)"
      using r(2) by (auto simp: g intro: filter_cong)
    have b: "child_ids c' = filter (\<lambda>n. n \<notin> (\<lambda>r. elem_id (snd r)) ` set (gone keys (ke # R))) (child_ids c)"
      using r(3) by (auto simp: g intro: filter_cong)
    have s: "subs ms' = filter (\<lambda>e. \<forall>r\<in>set (gone keys (ke # R)). \<not> contains (snd r) (fst e)) (subs ms)"
      using r(4) m1(2) by (auto simp: g intro: filter_cong)
    have v1: "set (revoked ms) \<subseteq> set (revoked ms')"
      using r(5) m1(3) by auto
    have v2: "\<forall>e\<in>set (subs ms). (\<exists>r\<in>set (gone keys (ke # R)). contains (snd r) (fst e)) \<longrightarrow> snd e \<in> set (revoked ms')"
    proof (intro ballI impI)
      fix e assume e: "e \<in> set (subs ms)" and ex: "\<exists>r\<in>set (gone keys (ke # R)). contains (snd r) (fst e)"
      show "snd e \<in> set (revoked ms')"
      proof (cases "contains (snd ke) (fst e)")
        case True
        with e have "snd e \<in> set (revoked ms1)" using m1(3) by auto
        with r(5) show ?thesis by blast
      next
        case False
        with e have e1: "e \<in> set (subs ms1)" using m1(2) by simp
        from ex False have "\<exists>r\<in>set (gone keys R). contains (snd r) (fst e)" by (auto simp: g)
        with r(6) e1 show ?thesis by blast
      qed
    qed
    show ?thesis
      using f a b s v1 v2 r(7-11) m1(4,5) by simp
  qed
qed

lemma gone_subset: "set (gone keys R) \<subseteq> set R"
  by (auto simp: gone_def)

lemma kept_iff: "r \<in> set R \<Longrightarrow> fst r \<notin> fst ` set (gone keys R) \<longleftrightarrow> fst r \<in> set keys"
  by (cases r) (force simp: gone_def image_iff)

lemma reconcile_bail:
  "join_keys (present_keys (or_empty (get (collPath (snd s))))) = lastKeyStr (snd s)
   \<Longrightarrow> reconcile parse get s = Some s"
  by (simp add: reconcile_def)

lemma inj_ids: 
  assumes "distinct (map (\<lambda>r. elem_id (snd r)) R)" "x \<in> set R" "y \<in> set R" "elem_id (snd x) = elem_id (snd y)"
  shows "x = y"
  using assms by (meson distinct_map inj_onD)

lemma reconcile_returns: "\<exists>ms' c'. reconcile parse get (ms, c) = Some (ms', c')"
proof (cases "join_keys (present_keys (or_empty (get (collPath c)))) = lastKeyStr c")
  case True
  then show ?thesis by (simp add: reconcile_def)
next
  case False
  let ?keys = "present_keys (or_empty (get (collPath c)))"
  from remove_loop[of ?keys ms "c \<lparr> lastKeyStr := join_keys ?keys \<rparr>" "rendered c"]
  obtain ms1 c1 where
    "foldl (remove_step ?keys) (Some (ms, c \<lparr> lastKeyStr := join_keys ?keys \<rparr>)) (rendered c) = Some (ms1, c1)"
    by auto
  with False have "reconcile parse get (ms, c) = Some (foldl (add_step parse get) (ms1, c1) ?keys)"
    by (simp add: reconcile_def Let_def)
  then show ?thesis by (cases "foldl (add_step parse get) (ms1, c1) ?keys") auto
qed

lemma reconcile_run:
  assumes wf: "coll_wf ms c"
    and sig: "join_keys (present_keys (or_empty (get (collPath c)))) \<noteq> lastKeyStr c"
    and res: "reconcile parse get (ms, c) = Some (ms', c')"
  shows "coll_wf ms' c'"
    and "lastKeyStr c' = join_keys (present_keys (or_empty (get (collPath c))))"
    and "fst ` set (rendered c') =
       {k \<in> fst ` set (rendered c). k \<in> set (present_keys (or_empty (get (collPath c))))} \<union>
       {k \<in> set (present_keys (or_empty (get (collPath c)))).
          parse (resolve (collPath c) (templateHTML c) k) \<noteq> []}"
    and "\<forall>r\<in>set (rendered c). fst r \<in> set (present_keys (or_empty (get (collPath c)))) \<longrightarrow> r \<in> set (rendered c')"
    and "\<forall>r\<in>set (rendered c). fst r \<notin> set (present_keys (or_empty (get (collPath c)))) \<longrightarrow>
        fst r \<notin> fst ` set (rendered c') \<and>
        elem_id (snd r) \<notin> set (child_ids c') \<and>
        (\<forall>e\<in>set (subs ms'). \<not> contains (snd r) (fst e)) \<and>
        (\<forall>e\<in>set (subs ms). contains (snd r) (fst e) \<longrightarrow> snd e \<in> set (revoked ms'))"
    and "\<forall>e\<in>set (subs ms). (\<forall>r\<in>set (rendered c). fst r \<in> set (present_keys (or_empty (get (collPath c)))) \<or> \<not> contains (snd r) (fst e))
         \<longrightarrow> e \<in> set (subs ms')"
proof -
  let ?keys = "present_keys (or_empty (get (collPath c)))"
  let ?c0 = "c \<lparr> lastKeyStr := join_keys ?keys \<rparr>"
  let ?G = "gone ?keys (rendered c)"
  from wf have w: "distinct (map fst (rendered c))" "distinct (map (\<lambda>r. elem_id (snd r)) (rendered c))"
    "\<forall>r\<in>set (rendered c). elem_id (snd r) \<in> set (child_ids c)"
    "\<forall>r\<in>set (rendered c). \<forall>n\<in>set (ids (snd r)). n < next_node ms"
    by (simp_all add: coll_wf_def)
  from remove_loop[of ?keys ms ?c0 "rendered c"] obtain ms1 c1 where r:
    "foldl (remove_step ?keys) (Some (ms, ?c0)) (rendered c) = Some (ms1, c1)"
    "rendered c1 = filter (\<lambda>r. fst r \<notin> fst ` set ?G) (rendered c)"
    "child_ids c1 = filter (\<lambda>n. n \<notin> (\<lambda>r. elem_id (snd r)) ` set ?G) (child_ids c)"
    "subs ms1 = filter (\<lambda>e. \<forall>r\<in>set ?G. \<not> contains (snd r) (fst e)) (subs ms)"
    "set (revoked ms) \<subseteq> set (revoked ms1)"
    "\<forall>e\<in>set (subs ms). (\<exists>r\<in>set ?G. contains (snd r) (fst e)) \<longrightarrow> snd e \<in> set (revoked ms1)"
    "next_node ms1 = next_node ms" "bound ms1 = bound ms"
    "collPath c1 = collPath c" "templateHTML c1 = templateHTML c" "lastKeyStr c1 = join_keys ?keys"
    by auto
  have r1: "rendered c1 = filter (\<lambda>r. fst r \<in> set ?keys) (rendered c)"
    unfolding r(2) by (rule filter_cong) (simp_all add: kept_iff)
  let ?s2 = "foldl (add_step parse get) (ms1, c1) ?keys"
  obtain ms2 c2 where s2: "?s2 = (ms2, c2)" by (cases ?s2)
  have rec: "reconcile parse get (ms, c) = Some (ms2, c2)"
    using sig r(1) s2 by (simp add: reconcile_def Let_def)
  from ext_add_loop[of "(ms1, c1)" parse get ?keys] s2 obtain extra new where e:
    "next_node ms1 \<le> next_node ms2"
    "collPath c2 = collPath c1" "templateHTML c2 = templateHTML c1"
    "lastKeyStr c2 = lastKeyStr c1" "revoked ms2 = revoked ms1"
    "subs ms2 = subs ms1 @ extra"
    "\<forall>e\<in>set extra. next_node ms1 \<le> fst e \<and> fst e < next_node ms2"
    "rendered c2 = rendered c1 @ new"
    "child_ids c2 = child_ids c1 @ map (\<lambda>r. elem_id (snd r)) new"
    "distinct (map (\<lambda>r. elem_id (snd r)) new)"
    "\<forall>r\<in>set new. \<forall>n\<in>set (ids (snd r)). next_node ms1 \<le> n \<and> n < next_node ms2"
    unfolding ext_def by auto
  have keys2: "fst ` set (rendered c2) =
      fst ` set (rendered c1) \<union> {k \<in> set ?keys. parse (resolve (collPath c) (templateHTML c) k) \<noteq> []}"
    using keys_add_loop[of parse get "(ms1, c1)" ?keys] s2 r(9,10) by simp
  have keys1: "fst ` set (rendered c1) = {k \<in> fst ` set (rendered c). k \<in> set ?keys}"
    unfolding r1 by (auto simp: image_iff)
  have d2: "distinct (map fst (rendered c2))"
    using distinct_keys_add_loop[of "(ms1, c1)" parse get ?keys] s2 w(1) r1
    by (simp add: distinct_map_filter)
  \<comment> \<open>the elements that stay\<close>
  have old_lt: "\<forall>r\<in>set (rendered c1). \<forall>n\<in>set (ids (snd r)). n < next_node ms1"
    using w(4) r(7) r1 by auto
  have old_kid: "\<forall>r\<in>set (rendered c1). elem_id (snd r) \<in> set (child_ids c1)"
  proof
    fix x assume x: "x \<in> set (rendered c1)"
    then have xr: "x \<in> set (rendered c)" and xk: "fst x \<in> set ?keys" using r1 by auto
    have "elem_id (snd x) \<notin> (\<lambda>r. elem_id (snd r)) ` set ?G"
    proof
      assume "elem_id (snd x) \<in> (\<lambda>r. elem_id (snd r)) ` set ?G"
      then obtain g where g: "g \<in> set ?G" "elem_id (snd x) = elem_id (snd g)" by auto
      then have "g \<in> set (rendered c)" "fst g \<notin> set ?keys" by (auto simp: gone_def)
      with inj_ids[OF w(2) xr this(1) g(2)] xk show False by simp
    qed
    with w(3) xr show "elem_id (snd x) \<in> set (child_ids c1)" by (simp add: r(3))
  qed
  have wf2: "coll_wf ms2 c2"
  proof -
    have a: "distinct (map (\<lambda>r. elem_id (snd r)) (rendered c2))"
    proof -
      have "distinct (map (\<lambda>r. elem_id (snd r)) (rendered c1))"
        using w(2) r1 by (simp add: distinct_map_filter)
      moreover have "elem_id (snd x) \<noteq> elem_id (snd y)" if "x \<in> set (rendered c1)" "y \<in> set new" for x y
      proof -
        have "elem_id (snd x) < next_node ms1" using old_lt that(1) elem_id_in_ids by blast
        moreover have "next_node ms1 \<le> elem_id (snd y)" using e(11) that(2) elem_id_in_ids by blast
        ultimately show ?thesis by simp
      qed
      ultimately show ?thesis using e(8,10) by auto
    qed
    have b: "\<forall>r\<in>set (rendered c2). elem_id (snd r) \<in> set (child_ids c2)"
      using old_kid e(8,9) by auto
    have c: "\<forall>r\<in>set (rendered c2). \<forall>n\<in>set (ids (snd r)). n < next_node ms2"
      using old_lt e(1,8,11) by fastforce
    from d2 a b c show ?thesis by (simp add: coll_wf_def)
  qed
  have kept: "\<forall>r\<in>set (rendered c). fst r \<in> set ?keys \<longrightarrow> r \<in> set (rendered c2)"
    using r1 e(8) by simp
  have removed: "\<forall>r\<in>set (rendered c). fst r \<notin> set ?keys \<longrightarrow>
        fst r \<notin> fst ` set (rendered c2) \<and>
        elem_id (snd r) \<notin> set (child_ids c2) \<and>
        (\<forall>e\<in>set (subs ms2). \<not> contains (snd r) (fst e)) \<and>
        (\<forall>e\<in>set (subs ms). contains (snd r) (fst e) \<longrightarrow> snd e \<in> set (revoked ms2))"
  proof (intro ballI impI)
    fix x assume x: "x \<in> set (rendered c)" and nk: "fst x \<notin> set ?keys"
    then have xg: "x \<in> set ?G" by (simp add: gone_def)
    have lt: "\<forall>n\<in>set (ids (snd x)). n < next_node ms1" using w(4) x r(7) by simp
    have 1: "fst x \<notin> fst ` set (rendered c2)"
      using nk by (auto simp: keys2 keys1)
    have 2: "elem_id (snd x) \<notin> set (child_ids c2)"
    proof -
      have "elem_id (snd x) \<notin> set (child_ids c1)" using xg by (auto simp: r(3))
      moreover have "elem_id (snd x) \<notin> (\<lambda>r. elem_id (snd r)) ` set new"
      proof
        assume "elem_id (snd x) \<in> (\<lambda>r. elem_id (snd r)) ` set new"
        then obtain y where y: "y \<in> set new" "elem_id (snd x) = elem_id (snd y)" by auto
        have "elem_id (snd x) < next_node ms1" using lt elem_id_in_ids by blast
        moreover have "next_node ms1 \<le> elem_id (snd y)" using e(11) y(1) elem_id_in_ids by blast
        ultimately show False using y(2) by simp
      qed
      ultimately show ?thesis by (simp add: e(9))
    qed
    have 3: "\<forall>e\<in>set (subs ms2). \<not> contains (snd x) (fst e)"
    proof
      fix b assume "b \<in> set (subs ms2)"
      then consider "b \<in> set (subs ms1)" | "b \<in> set extra" using e(6) by auto
      then show "\<not> contains (snd x) (fst b)"
      proof cases
        case 1
        then show ?thesis using xg by (auto simp: r(4))
      next
        case 2
        then have "next_node ms1 \<le> fst b" using e(7) by blast
        with lt show ?thesis by (auto simp: contains_def)
      qed
    qed
    have 4: "\<forall>e\<in>set (subs ms). contains (snd x) (fst e) \<longrightarrow> snd e \<in> set (revoked ms2)"
      using r(6) xg e(5) by auto
    from 1 2 3 4 show "fst x \<notin> fst ` set (rendered c2) \<and>
        elem_id (snd x) \<notin> set (child_ids c2) \<and>
        (\<forall>e\<in>set (subs ms2). \<not> contains (snd x) (fst e)) \<and>
        (\<forall>e\<in>set (subs ms). contains (snd x) (fst e) \<longrightarrow> snd e \<in> set (revoked ms2))"
      by blast
  qed
  have frame: "\<forall>e\<in>set (subs ms). (\<forall>r\<in>set (rendered c). fst r \<in> set ?keys \<or> \<not> contains (snd r) (fst e))
         \<longrightarrow> e \<in> set (subs ms2)"
    by (auto simp: e(6) r(4) gone_def)
  have eq: "ms' = ms2" "c' = c2" using rec res by simp_all
  show "coll_wf ms' c'" using wf2 by (simp add: eq)
  show "lastKeyStr c' = join_keys ?keys" using e(4) r(11) by (simp add: eq)
  show "fst ` set (rendered c') =
       {k \<in> fst ` set (rendered c). k \<in> set ?keys} \<union>
       {k \<in> set ?keys. parse (resolve (collPath c) (templateHTML c) k) \<noteq> []}"
    using keys2 keys1 by (simp add: eq)
  show "\<forall>r\<in>set (rendered c). fst r \<in> set ?keys \<longrightarrow> r \<in> set (rendered c')"
    using kept by (simp add: eq)
  show "\<forall>r\<in>set (rendered c). fst r \<notin> set ?keys \<longrightarrow>
        fst r \<notin> fst ` set (rendered c') \<and>
        elem_id (snd r) \<notin> set (child_ids c') \<and>
        (\<forall>e\<in>set (subs ms'). \<not> contains (snd r) (fst e)) \<and>
        (\<forall>e\<in>set (subs ms). contains (snd r) (fst e) \<longrightarrow> snd e \<in> set (revoked ms'))"
    using removed by (simp only: eq)
  show "\<forall>e\<in>set (subs ms). (\<forall>r\<in>set (rendered c). fst r \<in> set ?keys \<or> \<not> contains (snd r) (fst e))
         \<longrightarrow> e \<in> set (subs ms')"
    using frame by (simp only: eq)
qed

section \<open>Evaluation of the helpers on the inputs of the self-test\<close>

lemma parseSetExpr_count_increment:
  "parseSetExpr ''count:increment'' = \<lparr> path = ''count'', expr = Some ''increment'' \<rparr>"
  by (simp add: parseSetExpr_def trim_def is_ws_def)

end
